theory Spec2Isabelle
  imports Complex_Main
begin

chapter \<open>Definitions\<close>

section \<open>Buffered detection (buffered\_detection.py)\<close>

text \<open>
  The three analysis modules (preprocessing, segmentation, classification) and the colour
  conversion are external collaborators. Each call either raises an exception (with its
  message) or returns; a module returns a dictionary, of which the model keeps the
  \<open>status\<close> string and the one payload entry that \<open>process_frame\<close> reads.
\<close>

datatype 'a call = Raises string | Returns 'a

record organism =
  predicted_class :: "string option"
  confidence :: "real option"

text \<open>
  The \<open>classified_organisms\<close> entry of the classifier's dictionary is used outside the
  \<open>try\<close> of \<open>process_frame\<close>, by the statistics update, which takes its length and calls
  \<open>.get\<close> on each element. So the model keeps whether the value has a length and whether
  each element is a dictionary. (A malformed entry of the other two modules is read inside
  the \<open>try\<close> and is the \<open>Raises\<close> case of the call.)
\<close>

datatype organism_item = Organism organism | Not_a_dict

datatype organisms_value = Organism_list "organism_item list" | Not_a_list

record ('f, 'p, 's) modules =
  cvtColor :: "'f \<Rightarrow> 'f call"
  preprocessor :: "'f \<Rightarrow> (string \<times> 'p) call"
  segmenter :: "'p \<Rightarrow> 'f \<Rightarrow> (string \<times> 's list) call"
  classifier :: "'s list \<Rightarrow> (string \<times> organisms_value) call"

record 'f result =
  frame_number :: nat
  organisms :: organisms_value
  frame :: 'f

text \<open>
  The log keeps the warning and error records of the module logger; the informational
  progress lines are not modelled.
\<close>

datatype log_entry =
  Warning_queue_full nat
| Error_processing_frame nat string
| Error_worker string

text \<open>
  The body of \<open>process_frame\<close> inside its \<open>try\<close>: \<open>Inl e\<close> when a call raises,
  \<open>Inr None\<close> for each early \<open>return None\<close>, \<open>Inr (Some r)\<close> for the result dictionary.
\<close>

definition process_frame_body ::
  "('f, 'p, 's) modules \<Rightarrow> 'f \<Rightarrow> nat \<Rightarrow> string + 'f result option" where
  "process_frame_body m fr n =
     (case cvtColor m fr of
        Raises e \<Rightarrow> Inl e
      | Returns frame_rgb \<Rightarrow>
          (case preprocessor m frame_rgb of
             Raises e \<Rightarrow> Inl e
           | Returns (prep_status, preprocessed_image) \<Rightarrow>
               if prep_status \<noteq> ''success'' then Inr None
               else
                 (case segmenter m preprocessed_image frame_rgb of
                    Raises e \<Rightarrow> Inl e
                  | Returns (seg_status, seg_organisms) \<Rightarrow>
                      if seg_status \<noteq> ''success'' \<or> length seg_organisms = 0 then Inr None
                      else
                        (case classifier m seg_organisms of
                           Raises e \<Rightarrow> Inl e
                         | Returns (class_status, classified_organisms) \<Rightarrow>
                             if class_status \<noteq> ''success'' then Inr None
                             else Inr (Some \<lparr>frame_number = n,
                                              organisms = classified_organisms,
                                              frame = fr\<rparr>)))))"

text \<open>
  \<open>process_frame\<close> with its \<open>except Exception\<close> handler: the pair is the returned value
  and the records the call appends to the log.
\<close>

definition process_frame ::
  "('f, 'p, 's) modules \<Rightarrow> 'f \<Rightarrow> nat \<Rightarrow> 'f result option \<times> log_entry list" where
  "process_frame m fr n =
     (case process_frame_body m fr n of
        Inl e \<Rightarrow> (None, [Error_processing_frame n e])
      | Inr r \<Rightarrow> (r, []))"

text \<open>
  The detector object. \<open>frame_queue\<close>, \<open>maxsize\<close> and \<open>unfinished_tasks\<close> are the state
  of the bounded \<open>queue.Queue\<close>; \<open>worker_frame\<close> is the item the worker thread holds
  between its \<open>get\<close> and its \<open>task_done\<close>.
\<close>

record 'f detector =
  frame_queue :: "('f \<times> nat) list"
  maxsize :: int
  unfinished_tasks :: nat
  results_queue :: "'f result list"
  frames_captured :: nat
  frames_processed :: nat
  total_organisms :: nat
  species_counts :: "(string \<times> nat) list"
  processing :: bool
  worker_frame :: "('f \<times> nat) option"
  logged :: "log_entry list"

definition init_detector :: "int \<Rightarrow> 'f detector" where
  "init_detector queue_size =
     \<lparr>frame_queue = [], maxsize = queue_size, unfinished_tasks = 0, results_queue = [],
      frames_captured = 0, frames_processed = 0, total_organisms = 0, species_counts = [],
      processing = False, worker_frame = None, logged = []\<rparr>"

datatype queue_error = Full | Empty

text \<open>\<open>Queue.put(item, block=False)\<close>: a queue with \<open>maxsize <= 0\<close> is unbounded.\<close>

definition put_nowait :: "'f detector \<Rightarrow> 'f \<times> nat \<Rightarrow> queue_error + 'f detector" where
  "put_nowait d item =
     (if 0 < maxsize d \<and> maxsize d \<le> int (length (frame_queue d)) then Inl Full
      else Inr (d\<lparr>frame_queue := frame_queue d @ [item],
                  unfinished_tasks := unfinished_tasks d + 1\<rparr>))"

text \<open>\<open>Queue.get(timeout=0.5)\<close> as seen by the caller: the head item, or \<open>Empty\<close>.\<close>

definition get_timeout :: "'f detector \<Rightarrow> queue_error + ('f \<times> nat) \<times> 'f detector" where
  "get_timeout d =
     (case frame_queue d of
        [] \<Rightarrow> Inl Empty
      | item # rest \<Rightarrow> Inr (item, d\<lparr>frame_queue := rest\<rparr>))"

definition task_done :: "'f detector \<Rightarrow> 'f detector" where
  "task_done d = d\<lparr>unfinished_tasks := unfinished_tasks d - 1\<rparr>"

text \<open>\<open>species_counts[species] += 1\<close> on a \<open>defaultdict(int)\<close>, keys in insertion order.\<close>

fun incr_count :: "string \<Rightarrow> (string \<times> nat) list \<Rightarrow> (string \<times> nat) list" where
  "incr_count k [] = [(k, 1)]"
| "incr_count k ((k', c) # kcs) =
     (if k = k' then (k', c + 1) # kcs else (k', c) # incr_count k kcs)"

definition species_of :: "organism \<Rightarrow> string" where
  "species_of org = (case predicted_class org of None \<Rightarrow> ''unknown'' | Some s \<Rightarrow> s)"

text \<open>
  The loop \<open>for org in result['organisms']\<close> of the statistics update: an element that is
  not a dictionary raises at \<open>org.get\<close>, after the elements before it have been counted.
\<close>

fun count_species ::
  "(string \<times> nat) list \<Rightarrow> organism_item list \<Rightarrow> (string \<times> nat) list \<times> string option" where
  "count_species sc [] = (sc, None)"
| "count_species sc (Organism org # orgs) = count_species (incr_count (species_of org) sc) orgs"
| "count_species sc (Not_a_dict # orgs) = (sc, Some ''AttributeError'')"

text \<open>
  The statistics update that both the worker and the post-processing loop make for a
  result, statement by statement: the detector after it, and the exception it raised, if
  any. \<open>frames_processed\<close> is incremented first, so it is incremented also when a later
  statement raises.
\<close>

definition update_stats :: "'f detector \<Rightarrow> 'f result \<Rightarrow> 'f detector \<times> string option" where
  "update_stats d r =
     (let d1 = d\<lparr>frames_processed := frames_processed d + 1\<rparr>
      in case organisms r of
           Not_a_list \<Rightarrow> (d1, Some ''TypeError'')
         | Organism_list orgs \<Rightarrow>
             (case count_species (species_counts d1) orgs of
                (sc, exn) \<Rightarrow>
                  (d1\<lparr>total_organisms := total_organisms d1 + length orgs,
                      species_counts := sc\<rparr>, exn)))"

text \<open>
  One atomic action of the thread running \<open>processing_worker\<close>: when it holds no frame it
  tries to \<open>get\<close> one (a timeout leaves everything as it is and the loop goes round); when
  it holds one it runs \<open>process_frame\<close>, updates the statistics if there is a result, puts
  the result on the results queue and calls \<open>task_done\<close>. An exception of the statistics
  update is caught by the outer \<open>except Exception\<close> of the loop: it is logged, the rest of
  the iteration with its \<open>task_done\<close> is skipped, and the loop goes round.
\<close>

definition worker_step :: "('f, 'p, 's) modules \<Rightarrow> 'f detector \<Rightarrow> 'f detector" where
  "worker_step m d =
     (case worker_frame d of
        None \<Rightarrow>
          (case get_timeout d of
             Inl _ \<Rightarrow> d
           | Inr (item, d') \<Rightarrow> d'\<lparr>worker_frame := Some item\<rparr>)
      | Some (fr, n) \<Rightarrow>
          (case process_frame m fr n of
             (res, lg) \<Rightarrow>
               let d1 = d\<lparr>logged := logged d @ lg\<rparr>
               in case res of
                    None \<Rightarrow> (task_done d1)\<lparr>worker_frame := None\<rparr>
                  | Some r \<Rightarrow>
                      (case update_stats d1 r of
                         (d2, Some e) \<Rightarrow>
                           d2\<lparr>logged := logged d2 @ [Error_worker e], worker_frame := None\<rparr>
                       | (d2, None) \<Rightarrow>
                           (task_done (d2\<lparr>results_queue := results_queue d2 @ [r]\<rparr>))
                             \<lparr>worker_frame := None\<rparr>)))"

text \<open>
  One iteration of the recording loop of \<open>record_and_process\<close> that read a frame, in live
  mode: the frame is counted and offered to the queue without blocking.
\<close>

definition capture_frame :: "'f detector \<Rightarrow> 'f \<Rightarrow> 'f detector" where
  "capture_frame d fr =
     (let d1 = d\<lparr>frames_captured := frames_captured d + 1\<rparr>
      in case put_nowait d1 (fr, frames_captured d1) of
           Inl _ \<Rightarrow> d1\<lparr>logged := logged d1 @ [Warning_queue_full (frames_captured d1)]\<rparr>
         | Inr d2 \<Rightarrow> d2)"

text \<open>
  A session is driven by a schedule: \<open>Frame f\<close> is an iteration of the recording loop that
  read \<open>f\<close>, \<open>Worker\<close> is one action of the worker thread in between, and \<open>Interrupted\<close>
  is an iteration that read and counted a frame and was cut by a \<open>KeyboardInterrupt\<close>
  before the frame was queued or saved, which ends the loop. The end of the schedule is
  any other end of the recording loop (duration reached, read failure, key press). The
  second component of the loop state is the local list \<open>frames_to_process\<close>.
\<close>

datatype 'f event = Frame 'f | Worker | Interrupted

fun recording_loop ::
  "('f, 'p, 's) modules \<Rightarrow> bool \<Rightarrow> 'f event list \<Rightarrow> 'f detector \<times> ('f \<times> nat) list
     \<Rightarrow> 'f detector \<times> ('f \<times> nat) list" where
  "recording_loop m live [] (d, fs) = (d, fs)"
| "recording_loop m live (Frame fr # es) (d, fs) =
     (if live then recording_loop m live es (capture_frame d fr, fs)
      else
        let d1 = d\<lparr>frames_captured := frames_captured d + 1\<rparr>
        in recording_loop m live es (d1, fs @ [(fr, frames_captured d1)]))"
| "recording_loop m live (Worker # es) (d, fs) =
     recording_loop m live es (if processing d then worker_step m d else d, fs)"
| "recording_loop m live (Interrupted # es) (d, fs) =
     (d\<lparr>frames_captured := frames_captured d + 1\<rparr>, fs)"

text \<open>
  \<open>frame_queue.join()\<close> returns once \<open>unfinished_tasks\<close> is zero; until then the worker
  thread keeps running. Not returning is the value \<open>None\<close>.
\<close>

partial_function (option) join_queue ::
  "('f, 'p, 's) modules \<Rightarrow> 'f detector \<Rightarrow> 'f detector option" where
  "join_queue m d =
     (if unfinished_tasks d = 0 then Some d else join_queue m (worker_step m d))"

text \<open>
  \<open>_post_process_frames\<close>: the same pass and statistics update for each saved frame, with
  no handler around them, so an exception of the update ends the call (\<open>Inl\<close>).
\<close>

fun post_process_frames ::
  "('f, 'p, 's) modules \<Rightarrow> ('f \<times> nat) list \<Rightarrow> 'f detector \<Rightarrow> string + 'f detector" where
  "post_process_frames m [] d = Inr d"
| "post_process_frames m ((fr, n) # fs) d =
     (case process_frame m fr n of
        (res, lg) \<Rightarrow>
          let d1 = d\<lparr>logged := logged d @ lg\<rparr>
          in case res of
               None \<Rightarrow> post_process_frames m fs d1
             | Some r \<Rightarrow>
                 (case update_stats d1 r of
                    (d2, Some e) \<Rightarrow> Inl e
                  | (d2, None) \<Rightarrow>
                      post_process_frames m fs
                        (d2\<lparr>results_queue := results_queue d2 @ [r]\<rparr>)))"

text \<open>\<open>_generate_annotated_video\<close> empties the results queue; the files it writes are not modelled.\<close>

definition generate_annotated_video :: "'f detector \<Rightarrow> 'f detector" where
  "generate_annotated_video d = d\<lparr>results_queue := []\<rparr>"

text \<open>
  The end of the \<open>finally\<close> block, once the frames have been processed: the flag is
  cleared after a live session, the annotated video is generated when a frame was
  processed, and \<open>_print_summary\<close> reads the counters of the detector that results.
\<close>

definition finalize :: "bool \<Rightarrow> 'f detector \<Rightarrow> 'f detector" where
  "finalize process_live d =
     (let d3 = (if process_live then d\<lparr>processing := False\<rparr> else d)
      in if 0 < frames_processed d3 then generate_annotated_video d3 else d3)"

text \<open>
  The \<open>finally\<close> block of \<open>record_and_process\<close>: in live mode it joins the queue;
  otherwise it post-processes the saved frames. \<open>None\<close> when the join does not return,
  \<open>Some (Inl e)\<close> when post-processing raises.
\<close>

definition finish_recording ::
  "('f, 'p, 's) modules \<Rightarrow> bool \<Rightarrow> 'f detector \<times> ('f \<times> nat) list
     \<Rightarrow> (string + 'f detector) option" where
  "finish_recording m process_live st =
     (case st of
        (d2, frames_to_process) \<Rightarrow>
          if process_live
          then (case join_queue m d2 of
                  None \<Rightarrow> None
                | Some d3 \<Rightarrow> Some (Inr (finalize process_live d3)))
          else if frames_to_process \<noteq> []
          then (case post_process_frames m frames_to_process d2 of
                  Inl e \<Rightarrow> Some (Inl e)
                | Inr d3 \<Rightarrow> Some (Inr (finalize process_live d3)))
          else Some (Inr (finalize process_live d2)))"

text \<open>
  \<open>record_and_process\<close> on the detector \<open>d0\<close>: \<open>opened\<close> is \<open>cap.isOpened()\<close>. The
  value is \<open>Some (Inr d)\<close> with the detector as \<open>_print_summary\<close> reads it, \<open>Some (Inl e)\<close>
  when the call raises, or \<open>None\<close> when it does not return.
\<close>

definition record_and_process ::
  "('f, 'p, 's) modules \<Rightarrow> 'f detector \<Rightarrow> bool \<Rightarrow> bool \<Rightarrow> 'f event list
     \<Rightarrow> (string + 'f detector) option" where
  "record_and_process m d0 opened process_live schedule =
     (if \<not> opened then Some (Inr d0)
      else
        finish_recording m process_live
          (recording_loop m process_live schedule
             (if process_live then d0\<lparr>processing := True\<rparr> else d0, [])))"

text \<open>The three counters that \<open>_print_summary\<close> reports.\<close>

definition print_summary :: "'f detector \<Rightarrow> nat \<times> nat \<times> nat" where
  "print_summary d = (frames_captured d, frames_processed d, total_organisms d)"

text \<open>
  The detector keeps no counter of dropped frames. The number of frames dropped at a full
  queue is read off the log: one warning per dropped frame.
\<close>

definition is_queue_full_warning :: "log_entry \<Rightarrow> bool" where
  "is_queue_full_warning l = (case l of Warning_queue_full _ \<Rightarrow> True | _ \<Rightarrow> False)"

definition frames_dropped :: "'f detector \<Rightarrow> nat" where
  "frames_dropped d = length (filter is_queue_full_warning (logged d))"

text \<open>
  Vocabulary for the statements. The frames a schedule offers to the queue (or saves for
  post-processing), each with its frame number, when \<open>k\<close> frames have been counted before;
  and whether the schedule ends in an interrupted iteration.
\<close>

fun numbered_frames :: "'f event list \<Rightarrow> nat \<Rightarrow> ('f \<times> nat) list" where
  "numbered_frames [] k = []"
| "numbered_frames (Frame fr # es) k = (fr, k + 1) # numbered_frames es (k + 1)"
| "numbered_frames (Worker # es) k = numbered_frames es k"
| "numbered_frames (Interrupted # es) k = []"

fun interrupted :: "'f event list \<Rightarrow> nat" where
  "interrupted [] = 0"
| "interrupted (Frame fr # es) = interrupted es"
| "interrupted (Worker # es) = interrupted es"
| "interrupted (Interrupted # es) = 1"

text \<open>A frame was dropped at a full queue when the log holds the warning with its number.\<close>

definition dropped :: "'f detector \<Rightarrow> 'f \<times> nat \<Rightarrow> bool" where
  "dropped d x \<longleftrightarrow> Warning_queue_full (snd x) \<in> set (logged d)"

text \<open>The pass on a frame yields a result.\<close>

definition has_result :: "('f, 'p, 's) modules \<Rightarrow> 'f \<times> nat \<Rightarrow> bool" where
  "has_result m x \<longleftrightarrow> fst (process_frame m (fst x) (snd x)) \<noteq> None"

text \<open>
  The frames of a session that were not dropped at a full queue and whose pass yields no
  result.
\<close>

definition frames_without_result ::
  "('f, 'p, 's) modules \<Rightarrow> 'f detector \<Rightarrow> 'f event list \<Rightarrow> nat" where
  "frames_without_result m d schedule =
     length (filter (\<lambda>x. \<not> dropped d x \<and> \<not> has_result m x) (numbered_frames schedule 0))"

text \<open>The exception the statistics update raises for a value of \<open>classified_organisms\<close>.\<close>

definition stats_error :: "organisms_value \<Rightarrow> string option" where
  "stats_error v =
     (case v of
        Not_a_list \<Rightarrow> Some ''TypeError''
      | Organism_list orgs \<Rightarrow> if Not_a_dict \<in> set orgs then Some ''AttributeError'' else None)"

text \<open>The statistics update raises on the result of the pass on a frame.\<close>

definition update_raises :: "('f, 'p, 's) modules \<Rightarrow> 'f \<times> nat \<Rightarrow> bool" where
  "update_raises m x \<longleftrightarrow>
     (case fst (process_frame m (fst x) (snd x)) of
        None \<Rightarrow> False
      | Some r \<Rightarrow> stats_error (organisms r) \<noteq> None)"

text \<open>In a safe session the statistics update raises on no frame the schedule offers.\<close>

definition safe_session :: "('f, 'p, 's) modules \<Rightarrow> 'f event list \<Rightarrow> bool" where
  "safe_session m schedule \<longleftrightarrow> list_all (\<lambda>x. \<not> update_raises m x) (numbered_frames schedule 0)"

text \<open>The frames the worker still has to finish: the one it holds, then the queued ones.\<close>

definition pending_frames :: "'f detector \<Rightarrow> ('f \<times> nat) list" where
  "pending_frames d =
     (case worker_frame d of None \<Rightarrow> [] | Some x \<Rightarrow> [x]) @ frame_queue d"

text \<open>What the pass on a frame appends to the log.\<close>

definition pass_log :: "('f, 'p, 's) modules \<Rightarrow> 'f \<times> nat \<Rightarrow> log_entry list" where
  "pass_log m x = snd (process_frame m (fst x) (snd x))"

text \<open>The state in which the recording loop of a live session on a fresh detector ends.\<close>

definition stop_state :: "('f, 'p, 's) modules \<Rightarrow> int \<Rightarrow> 'f event list \<Rightarrow> 'f detector" where
  "stop_state m queue_size schedule =
     fst (recording_loop m True schedule ((init_detector queue_size)\<lparr>processing := True\<rparr>, []))"

text \<open>
  Notions for the proofs. The records of the worker's outer handler in the log; the worker
  actions still needed to empty the queue (two for a queued item, one for a held one);
  everything the worker's handling of a frame appends to the log.
\<close>

definition is_worker_error :: "log_entry \<Rightarrow> bool" where
  "is_worker_error l = (case l of Error_worker _ \<Rightarrow> True | _ \<Rightarrow> False)"

definition worker_errors :: "'f detector \<Rightarrow> nat" where
  "worker_errors d = length (filter is_worker_error (logged d))"

definition steps_left :: "'f detector \<Rightarrow> nat" where
  "steps_left d = 2 * length (frame_queue d) + (if worker_frame d = None then 0 else 1)"

definition pass_entries :: "('f, 'p, 's) modules \<Rightarrow> 'f \<times> nat \<Rightarrow> log_entry list" where
  "pass_entries m x =
     pass_log m x @
     (case fst (process_frame m (fst x) (snd x)) of
        None \<Rightarrow> []
      | Some r \<Rightarrow> (case stats_error (organisms r) of None \<Rightarrow> [] | Some e \<Rightarrow> [Error_worker e]))"

text \<open>
  The worker has taken the detector from \<open>d\<close> to \<open>d'\<close> by finishing exactly the frames
  \<open>finished\<close>, the first of the frames pending in \<open>d\<close>.
\<close>

definition passes ::
  "('f, 'p, 's) modules \<Rightarrow> 'f detector \<Rightarrow> ('f \<times> nat) list \<Rightarrow> 'f detector \<Rightarrow> bool" where
  "passes m d finished d' \<longleftrightarrow>
     pending_frames d = finished @ pending_frames d' \<and>
     frames_processed d' = frames_processed d + length (filter (has_result m) finished) \<and>
     logged d' = logged d @ concat (map (pass_entries m) finished) \<and>
     frames_captured d' = frames_captured d \<and>
     maxsize d' = maxsize d \<and>
     processing d' = processing d \<and>
     unfinished_tasks d' + length finished
       = unfinished_tasks d + length (filter (update_raises m) finished)"

text \<open>
  The queue's own bookkeeping: the unfinished tasks are the pending frames and those whose
  \<open>task_done\<close> the handler skipped.
\<close>

definition booked :: "'f detector \<Rightarrow> bool" where
  "booked d \<longleftrightarrow> unfinished_tasks d = length (pending_frames d) + worker_errors d"

text \<open>
  The bookkeeping of a live session when the frames \<open>offered\<close> have been read and \<open>i\<close>
  iterations interrupted: the counters, the numbering of the frames, the warnings, and the
  split of the frames that were not dropped into those finished and those pending.
\<close>

definition accounted ::
  "('f, 'p, 's) modules \<Rightarrow> ('f \<times> nat) list \<Rightarrow> nat \<Rightarrow> 'f detector \<Rightarrow> bool" where
  "accounted m offered i d \<longleftrightarrow>
     frames_captured d = length offered + i \<and>
     map snd offered = [1..<Suc (length offered)] \<and>
     (\<forall>n. Warning_queue_full n \<in> set (logged d) \<longrightarrow> n \<le> length offered) \<and>
     frames_dropped d = length (filter (dropped d) offered) \<and>
     booked d \<and>
     (\<exists>finished. filter (\<lambda>x. \<not> dropped d x) offered = finished @ pending_frames d \<and>
        frames_processed d = length (filter (has_result m) finished))"

text \<open>
  Every unfinished task is a pending frame, and the statistics update raises on none of
  them.
\<close>

definition steady :: "('f, 'p, 's) modules \<Rightarrow> 'f detector \<Rightarrow> bool" where
  "steady m d \<longleftrightarrow>
     unfinished_tasks d = length (pending_frames d) \<and>
     list_all (\<lambda>x. \<not> update_raises m x) (pending_frames d)"

text \<open>The statistics the accounting is about: captured, processed, dropped.\<close>

definition session_stats :: "'f detector \<Rightarrow> nat \<times> nat \<times> nat" where
  "session_stats d = (frames_captured d, frames_processed d, frames_dropped d)"

text \<open>
  Modules for the examples, on frames that are numbers: all stages succeeding with one
  organism per frame; preprocessing returning the status \<open>error\<close>; preprocessing raising;
  preprocessing failing on odd frames only; a classifier whose \<open>classified_organisms\<close>
  has no length; segmentation finding nothing.
\<close>

definition working_modules :: "(nat, nat, nat) modules" where
  "working_modules =
     \<lparr>cvtColor = Returns,
      preprocessor = (\<lambda>f. Returns (''success'', f)),
      segmenter = (\<lambda>p f. Returns (''success'', [p])),
      classifier = (\<lambda>os. Returns (''success'',
         Organism_list
           (map (\<lambda>_. Organism \<lparr>predicted_class = Some ''copepod'', confidence = None\<rparr>) os)))\<rparr>"

definition failing_modules :: "(nat, nat, nat) modules" where
  "failing_modules = working_modules\<lparr>preprocessor := (\<lambda>f. Returns (''error'', f))\<rparr>"

definition raising_modules :: "(nat, nat, nat) modules" where
  "raising_modules = working_modules\<lparr>preprocessor := (\<lambda>f. Raises ''boom'')\<rparr>"

definition picky_modules :: "(nat, nat, nat) modules" where
  "picky_modules =
     working_modules\<lparr>preprocessor :=
       (\<lambda>f. Returns (if even f then ''success'' else ''error'', f))\<rparr>"

definition malformed_modules :: "(nat, nat, nat) modules" where
  "malformed_modules =
     working_modules\<lparr>classifier := (\<lambda>os. Returns (''success'', Not_a_list))\<rparr>"

definition empty_modules :: "(nat, nat, nat) modules" where
  "empty_modules = working_modules\<lparr>segmenter := (\<lambda>p f. Returns (''success'', []))\<rparr>"

text \<open>
  A schedule for the examples: with a queue of capacity one, frame 1 is queued and
  processed, frame 2 dropped, frame 3 queued and left to the join, and a further frame is
  counted when the interrupt arrives.
\<close>

definition example_schedule :: "nat event list" where
  "example_schedule = [Frame 0, Frame 1, Worker, Worker, Frame 3, Interrupted]"

section \<open>Pipeline simulation (simulate\_pipeline.py)\<close>

text \<open>
  \<open>simulate_single_sample\<close> calls the seven stage modules of the manager one after the
  other. The modules are external: \<open>stage_call\<close> gives, for each stage, what its
  \<open>process\<close> call does on this sample, raise or return a dictionary with this \<open>status\<close>.
  The trace records each call of a stage, each \<open>logger.error\<close> of a failed stage and each
  file the visualizer saves. All files written by the Export stage are written inside its
  \<open>process\<close> call.
\<close>

datatype stage =
  Acquisition | Preprocessing | Segmentation | Classification | Counting | Analytics | Export

datatype stage_call = Stage_raises string | Stage_returns string

datatype sim_event = Invoked stage | Logged_failure stage | Saved string

text \<open>
  The seven blocks of the function in source order, each with the visualisations saved
  right after the stage has succeeded.
\<close>

definition pipeline_steps :: "(stage \<times> string list) list" where
  "pipeline_steps =
     [(Acquisition, [''original'']),
      (Preprocessing, [''preprocessed'']),
      (Segmentation, [''segmentation'']),
      (Classification, [''classification'']),
      (Counting, []),
      (Analytics, [''final'']),
      (Export, [])]"

text \<open>
  One block: call the stage; on a status other than \<open>success\<close> log the failure and
  return \<open>None\<close> (here \<open>Inr False\<close>); an exception of the stage propagates (\<open>Inl e\<close>).
\<close>

fun run_steps ::
  "(stage \<Rightarrow> stage_call) \<Rightarrow> (stage \<times> string list) list \<Rightarrow> sim_event list
     \<Rightarrow> sim_event list \<times> (string + bool)" where
  "run_steps sc [] tr = (tr, Inr True)"
| "run_steps sc ((s, saves) # rest) tr =
     (case sc s of
        Stage_raises e \<Rightarrow> (tr @ [Invoked s], Inl e)
      | Stage_returns st \<Rightarrow>
          if st \<noteq> ''success'' then (tr @ [Invoked s, Logged_failure s], Inr False)
          else run_steps sc rest (tr @ Invoked s # map Saved saves))"

text \<open>
  The value of \<open>simulate_single_sample\<close>: the trace, and \<open>Inl e\<close> for an exception,
  \<open>Inr None\<close> for \<open>return None\<close>, \<open>Inr (Some paths)\<close> for the result dictionary, of
  which the keys of \<open>visualization_paths\<close> are kept.
\<close>

definition simulate_single_sample ::
  "(stage \<Rightarrow> stage_call) \<Rightarrow> sim_event list \<times> (string + string list option)" where
  "simulate_single_sample sc =
     (case run_steps sc pipeline_steps [] of
        (tr, Inl e) \<Rightarrow> (tr, Inl e)
      | (tr, Inr False) \<Rightarrow> (tr, Inr None)
      | (tr, Inr True) \<Rightarrow>
          (tr @ [Saved ''grid'', Saved ''metadata''],
           Inr (Some [''original'', ''preprocessed'', ''segmentation'', ''classification'',
                      ''final'', ''grid''])))"

text \<open>The position of a stage in the fixed order.\<close>

fun stage_index :: "stage \<Rightarrow> nat" where
  "stage_index Acquisition = 1"
| "stage_index Preprocessing = 2"
| "stage_index Segmentation = 3"
| "stage_index Classification = 4"
| "stage_index Counting = 5"
| "stage_index Analytics = 6"
| "stage_index Export = 7"

text \<open>A sample whose segmentation returns the status \<open>error\<close>, every other stage succeeding.\<close>

definition segmentation_fails :: "stage \<Rightarrow> stage_call" where
  "segmentation_fails s =
     (if s = Segmentation then Stage_returns ''error'' else Stage_returns ''success'')"

section \<open>Batch processing (batch\_process.py)\<close>

text \<open>
  The dictionary returned by \<open>pipeline.execute_pipeline\<close>, as far as \<open>batch_process.py\<close>
  reads it. An entry read with \<open>.get(key, default)\<close> is an option, \<open>None\<close> when the key
  is absent. The floats are modelled as reals.
\<close>

record bloom_alert =
  bloom_species :: "string option"
  bloom_dominance :: "real option"

record result_summary =
  rs_total_organisms :: "int option"
  rs_counts_by_class :: "(string \<times> int) list option"
  rs_shannon_diversity :: "real option"
  rs_species_richness :: "int option"
  rs_capture_id :: "string option"

record detailed_results =
  dr_diversity_simpson :: "real option"
  dr_bloom_alerts :: "bloom_alert list option"

record pipeline_result =
  status :: "string option"
  error_message :: "string option"
  summary :: "result_summary option"
  detailed_results :: "detailed_results option"

text \<open>\<open>d.get(key, default)\<close>.\<close>

definition get_or :: "'a option \<Rightarrow> 'a \<Rightarrow> 'a" where
  "get_or v dflt = (case v of None \<Rightarrow> dflt | Some x \<Rightarrow> x)"

text \<open>\<open>result.get('summary', {}).get(key, default)\<close> and the same through \<open>detailed_results\<close>.\<close>

definition summary_get :: "pipeline_result \<Rightarrow> (result_summary \<Rightarrow> 'a option) \<Rightarrow> 'a \<Rightarrow> 'a" where
  "summary_get r key dflt =
     (case summary r of None \<Rightarrow> dflt | Some rs \<Rightarrow> get_or (key rs) dflt)"

definition detailed_get ::
  "pipeline_result \<Rightarrow> (detailed_results \<Rightarrow> 'a option) \<Rightarrow> 'a \<Rightarrow> 'a" where
  "detailed_get r key dflt =
     (case detailed_results r of None \<Rightarrow> dflt | Some dr \<Rightarrow> get_or (key dr) dflt)"

text \<open>
  An image file is given by its path as a string; \<open>image_path.name\<close> is the final
  component of the path.
\<close>

definition path_name :: "string \<Rightarrow> string" where
  "path_name image_path = rev (takeWhile (\<lambda>c. c \<noteq> CHR ''/'') (rev image_path))"

text \<open>
  \<open>process_single_image\<close>: the pipeline call raises or returns a dictionary. The source
  returns a pair \<open>(results, None)\<close> or \<open>(None, message)\<close>; the messages are never empty,
  so the caller's test \<open>if error:\<close> holds exactly for \<open>Inl\<close>.
\<close>

definition process_single_image ::
  "(string \<Rightarrow> pipeline_result call) \<Rightarrow> string \<Rightarrow> string + pipeline_result" where
  "process_single_image execute_pipeline image_path =
     (case execute_pipeline image_path of
        Raises e \<Rightarrow> Inl (''Error processing '' @ path_name image_path @ '': '' @ e)
      | Returns results \<Rightarrow>
          if status results \<noteq> Some ''success''
          then Inl (''Pipeline failed: '' @ get_or (error_message results) ''Unknown error'')
          else Inr results)"

record batch_summary =
  total_images :: nat
  summary_total_organisms :: int
  species_detected :: "string set"
  summary_species_counts :: "(string \<times> int) list"
  average_diversity :: "(string \<times> real) list"
  blooms_detected :: "(string \<times> string \<times> real) list"

text \<open>\<open>counts[species] = counts.get(species, 0) + count\<close> on a dictionary in insertion order.\<close>

fun add_count :: "string \<Rightarrow> int \<Rightarrow> (string \<times> int) list \<Rightarrow> (string \<times> int) list" where
  "add_count k v [] = [(k, 0 + v)]"
| "add_count k v ((k', c) # kcs) =
     (if k = k' then (k', c + v) # kcs else (k', c) # add_count k v kcs)"

text \<open>
  The two inner loops of \<open>summarize_results\<close>: over the items of a result's
  \<open>counts_by_class\<close>, and over its bloom alerts (\<open>capture\<close> is the result's capture id).
\<close>

fun merge_class_counts :: "batch_summary \<Rightarrow> (string \<times> int) list \<Rightarrow> batch_summary" where
  "merge_class_counts s [] = s"
| "merge_class_counts s ((species, c) # items) =
     merge_class_counts
       (s\<lparr>species_detected := insert species (species_detected s),
          summary_species_counts := add_count species c (summary_species_counts s)\<rparr>)
       items"

fun append_blooms :: "string \<Rightarrow> batch_summary \<Rightarrow> bloom_alert list \<Rightarrow> batch_summary" where
  "append_blooms capture s [] = s"
| "append_blooms capture s (bloom # blooms) =
     append_blooms capture
       (s\<lparr>blooms_detected := blooms_detected s @
            [(capture, get_or (bloom_species bloom) ''Unknown'',
              get_or (bloom_dominance bloom) 0)]\<rparr>)
       blooms"

text \<open>
  The body of the outer loop for a successful result; the state is the summary with the
  two running sums \<open>shannon_sum\<close> and \<open>simpson_sum\<close>.
\<close>

definition accumulate ::
  "batch_summary \<times> real \<times> real \<Rightarrow> pipeline_result \<Rightarrow> batch_summary \<times> real \<times> real" where
  "accumulate acc r =
     (case acc of
        (s, shannon_sum, simpson_sum) \<Rightarrow>
          let s1 = s\<lparr>summary_total_organisms :=
                       summary_total_organisms s + summary_get r rs_total_organisms 0\<rparr>;
              s2 = merge_class_counts s1 (summary_get r rs_counts_by_class []);
              s3 = append_blooms (summary_get r rs_capture_id ''Unknown'') s2
                     (detailed_get r dr_bloom_alerts [])
          in (s3,
              shannon_sum + summary_get r rs_shannon_diversity 0,
              simpson_sum + detailed_get r dr_diversity_simpson 0))"

text \<open>The loop: \<open>result['status']\<close> raises \<open>KeyError\<close> when the key is absent.\<close>

fun summarize_loop ::
  "pipeline_result list \<Rightarrow> batch_summary \<times> real \<times> real
     \<Rightarrow> string + batch_summary \<times> real \<times> real" where
  "summarize_loop [] acc = Inr acc"
| "summarize_loop (r # rs) acc =
     (case status r of
        None \<Rightarrow> Inl ''KeyError''
      | Some st \<Rightarrow>
          if st \<noteq> ''success'' then summarize_loop rs acc
          else summarize_loop rs (accumulate acc r))"

definition summarize_results :: "pipeline_result list \<Rightarrow> string + batch_summary" where
  "summarize_results all_results =
     (case summarize_loop all_results
             (\<lparr>total_images = length all_results, summary_total_organisms = 0,
               species_detected = {}, summary_species_counts = [],
               average_diversity = [(''shannon'', 0), (''simpson'', 0)],
               blooms_detected = []\<rparr>, 0, 0) of
        Inl e \<Rightarrow> Inl e
      | Inr (s, shannon_sum, simpson_sum) \<Rightarrow>
          Inr (if 0 < total_images s
               then s\<lparr>average_diversity :=
                        [(''shannon'', shannon_sum / real (total_images s)),
                         (''simpson'', simpson_sum / real (total_images s))]\<rparr>
               else s))"

text \<open>
  The loop of \<open>main\<close> over the image files: \<open>Inl 1\<close> is \<open>sys.exit(1)\<close> at a failure
  without \<open>--continue-on-error\<close>.
\<close>

fun process_images ::
  "(string \<Rightarrow> pipeline_result call) \<Rightarrow> bool \<Rightarrow> string list
     \<Rightarrow> pipeline_result list \<Rightarrow> (string \<times> string) list
     \<Rightarrow> nat + pipeline_result list \<times> (string \<times> string) list" where
  "process_images ep continue_on_error [] all_results failed_images =
     Inr (all_results, failed_images)"
| "process_images ep continue_on_error (image_path # rest) all_results failed_images =
     (case process_single_image ep image_path of
        Inl error \<Rightarrow>
          if \<not> continue_on_error then Inl 1
          else process_images ep continue_on_error rest all_results
                 (failed_images @ [(path_name image_path, error)])
      | Inr result \<Rightarrow>
          process_images ep continue_on_error rest (all_results @ [result]) failed_images)"

text \<open>
  \<open>main\<close> of \<open>batch_process.py\<close>: \<open>dir_exists\<close> is \<open>input_dir.exists()\<close>,
  \<open>image_files\<close> what \<open>find_images\<close> returns. The value is the exit code of the process
  and, when the run reaches the summary, the summary and the list of failed images (the
  files written from them are not modelled). The script calls \<open>main()\<close> and ends, so a
  run that reaches the end of \<open>main\<close> exits with code 0; an uncaught exception exits
  with code 1.
\<close>

definition batch_main ::
  "bool \<Rightarrow> string list \<Rightarrow> bool \<Rightarrow> (string \<Rightarrow> pipeline_result call)
     \<Rightarrow> nat \<times> (batch_summary \<times> (string \<times> string) list) option" where
  "batch_main dir_exists image_files continue_on_error ep =
     (if \<not> dir_exists then (1, None)
      else if image_files = [] then (1, None)
      else
        (case process_images ep continue_on_error image_files [] [] of
           Inl code \<Rightarrow> (code, None)
         | Inr (all_results, failed_images) \<Rightarrow>
             (case summarize_results all_results of
                Inl e \<Rightarrow> (1, None)
              | Inr s \<Rightarrow> (0, Some (s, failed_images)))))"

text \<open>Vocabulary for the statements: the samples of a batch that succeed, and those that fail.\<close>

fun successful_results ::
  "(string \<Rightarrow> pipeline_result call) \<Rightarrow> string list \<Rightarrow> pipeline_result list" where
  "successful_results ep [] = []"
| "successful_results ep (image_path # rest) =
     (case process_single_image ep image_path of
        Inl error \<Rightarrow> successful_results ep rest
      | Inr result \<Rightarrow> result # successful_results ep rest)"

fun failures ::
  "(string \<Rightarrow> pipeline_result call) \<Rightarrow> string list \<Rightarrow> (string \<times> string) list" where
  "failures ep [] = []"
| "failures ep (image_path # rest) =
     (case process_single_image ep image_path of
        Inl error \<Rightarrow> (path_name image_path, error) # failures ep rest
      | Inr result \<Rightarrow> failures ep rest)"

definition sample_succeeds :: "(string \<Rightarrow> pipeline_result call) \<Rightarrow> string \<Rightarrow> bool" where
  "sample_succeeds ep image_path =
     (case process_single_image ep image_path of Inl error \<Rightarrow> False | Inr result \<Rightarrow> True)"

text \<open>The count a dictionary, given as its list of items, holds for a key (0 when absent).\<close>

definition count_for :: "string \<Rightarrow> (string \<times> int) list \<Rightarrow> int" where
  "count_for k items = sum_list (map snd (filter (\<lambda>item. fst item = k) items))"

definition mean :: "real list \<Rightarrow> real" where
  "mean xs = (if xs = [] then 0 else sum_list xs / real (length xs))"

text \<open>The species richness a sample's result reports, as the per-sample rows of \<open>main\<close> read it.\<close>

definition sample_richness :: "pipeline_result \<Rightarrow> int" where
  "sample_richness r = summary_get r rs_species_richness 0"

text \<open>A family of pipeline results and two pipelines for the examples.\<close>

definition sample_result :: "real \<Rightarrow> real \<Rightarrow> (string \<times> int) list \<Rightarrow> pipeline_result" where
  "sample_result sh si counts =
     \<lparr>status = Some ''success'', error_message = None,
      summary = Some \<lparr>rs_total_organisms = Some (sum_list (map snd counts)),
                      rs_counts_by_class = Some counts,
                      rs_shannon_diversity = Some sh,
                      rs_species_richness = Some (int (length counts)),
                      rs_capture_id = Some ''sample''\<rparr>,
      detailed_results = Some \<lparr>dr_diversity_simpson = Some si, dr_bloom_alerts = Some []\<rparr>\<rparr>"

definition failing_pipeline :: "string \<Rightarrow> pipeline_result call" where
  "failing_pipeline image_path =
     Returns \<lparr>status = Some ''error'', error_message = Some ''segmentation found nothing'',
              summary = None, detailed_results = None\<rparr>"

definition mixed_pipeline :: "string \<Rightarrow> pipeline_result call" where
  "mixed_pipeline image_path =
     (if image_path = ''a.jpg'' then Returns (sample_result 1 (1 / 2) [(''copepod'', 2), (''diatom'', 2)])
      else if image_path = ''b.jpg'' then Returns (sample_result 0 1 [(''copepod'', 3)])
      else Raises ''unreadable'')"

section \<open>Diversity analytics (the AnalyticsEngine of the specification)\<close>

text \<open>
  The analytics module that the pipeline calls (\<open>modules/analytics.py\<close>) is not among
  the sources; only its callers are. The functions of this section follow section 4.4 of
  the specification. A ClassCounts mapping is given as the list of its items, each class
  label once; the counts are natural numbers and the floating-point results are modelled
  as reals.
\<close>

type_synonym class_counts = "(string \<times> nat) list"

text \<open>Modelled from the spec: \<open>totalCount\<close>, the sum of the counts of a ClassCounts snapshot.\<close>

definition total_count :: "class_counts \<Rightarrow> nat" where
  "total_count cc = sum_list (map snd cc)"

text \<open>Modelled from the spec: the share \<open>p = count / totalCount\<close> of a class.\<close>

definition proportion :: "class_counts \<Rightarrow> nat \<Rightarrow> real" where
  "proportion cc c = real c / real (total_count cc)"

text \<open>Modelled from the spec: the classes with count \<open>> 0\<close>, over which the indices range.\<close>

definition present_classes :: "class_counts \<Rightarrow> class_counts" where
  "present_classes cc = filter (\<lambda>item. 0 < snd item) cc"

text \<open>
  Modelled from the spec: the Shannon diversity of the AnalyticsEngine,
  \<open>H = - sum of p * ln p\<close> over the classes with count \<open>> 0\<close>, and \<open>H = 0\<close> when
  \<open>totalCount = 0\<close>.
\<close>

definition shannon :: "class_counts \<Rightarrow> real" where
  "shannon cc =
     (if total_count cc = 0 then 0
      else - (\<Sum>item \<leftarrow> present_classes cc.
                proportion cc (snd item) * ln (proportion cc (snd item))))"

text \<open>
  Modelled from the spec: the Simpson index of the AnalyticsEngine, \<open>D = sum of p^2\<close>.
  The specification gives no value for \<open>totalCount = 0\<close>; the model returns 0 there.
\<close>

definition simpson :: "class_counts \<Rightarrow> real" where
  "simpson cc =
     (if total_count cc = 0 then 0
      else (\<Sum>item \<leftarrow> cc. (proportion cc (snd item))\<^sup>2))"

text \<open>
  Modelled from the spec: the species richness of the AnalyticsEngine, the number of
  classes with count \<open>> 0\<close>.
\<close>

definition species_richness :: "class_counts \<Rightarrow> nat" where
  "species_richness cc = length (present_classes cc)"

section \<open>Configuration validation (main.py and the ConfigValidator of the specification)\<close>

text \<open>
  \<open>main.py\<close> calls \<open>ConfigValidator.validate(config)\<close> and reads the pair
  \<open>(is_valid, errors)\<close>; the validator itself (\<open>pipeline/validators.py\<close>) is not among
  the sources. The validator of this section follows section 4.2 of the specification:
  an enumerated schema of required sections, each with its required keys and the range
  each value must lie in. The specification names the seven sections and gives the
  required keys by example only, so the schema is a parameter. A configuration is a
  dictionary of sections, each a dictionary of values, given as lists of items.
\<close>

datatype config_value = Number real | Other_value

datatype range = Unconstrained | Closed_range real real | Left_open_range real real

type_synonym config = "(string \<times> (string \<times> config_value) list) list"

type_synonym schema = "(string \<times> (string \<times> range) list) list"

text \<open>
  Modelled from the spec: a violation reported by the ConfigValidator. Each one names the
  section, and the key, it is about.
\<close>

datatype violation =
  Missing_section string
| Missing_key string string
| Out_of_range string string

text \<open>
  Modelled from the spec: the range check of the ConfigValidator for one value
  (\<open>[lo, hi]\<close> and \<open>(lo, hi]\<close> are the two shapes the specification uses).
\<close>

fun in_range :: "range \<Rightarrow> config_value \<Rightarrow> bool" where
  "in_range Unconstrained v = True"
| "in_range (Closed_range lo hi) (Number x) = (lo \<le> x \<and> x \<le> hi)"
| "in_range (Left_open_range lo hi) (Number x) = (lo < x \<and> x \<le> hi)"
| "in_range r Other_value = False"

text \<open>
  Modelled from the spec: the ConfigValidator's check of one required key of a section
  that is present, one violation when the key is missing or its value out of range.
\<close>

definition check_key ::
  "string \<Rightarrow> (string \<times> config_value) list \<Rightarrow> string \<times> range \<Rightarrow> violation list" where
  "check_key sec section_cfg req =
     (case map_of section_cfg (fst req) of
        None \<Rightarrow> [Missing_key sec (fst req)]
      | Some v \<Rightarrow> if in_range (snd req) v then [] else [Out_of_range sec (fst req)])"

text \<open>
  Modelled from the spec: the ConfigValidator's check of one required section. A missing
  section is reported, and so is each of its required keys, all of which are missing with
  it.
\<close>

definition check_section :: "config \<Rightarrow> string \<times> (string \<times> range) list \<Rightarrow> violation list" where
  "check_section cfg sec_req =
     (case map_of cfg (fst sec_req) of
        None \<Rightarrow> Missing_section (fst sec_req)
                 # map (\<lambda>req. Missing_key (fst sec_req) (fst req)) (snd sec_req)
      | Some section_cfg \<Rightarrow> concat (map (check_key (fst sec_req) section_cfg) (snd sec_req)))"

text \<open>
  Modelled from the spec: \<open>ConfigValidator.validate\<close>, which collects the violations of
  all sections in schema order in one pass and returns the pair \<open>(is_valid, errors)\<close>.
\<close>

definition validate :: "schema \<Rightarrow> config \<Rightarrow> bool \<times> violation list" where
  "validate sch cfg =
     (let errors = concat (map (check_section cfg) sch) in (errors = [], errors))"

text \<open>
  Lines 80 to 90 of \<open>main.py\<close>: what \<open>main\<close> does with the validator's answer. The value
  is the exit code when \<open>main\<close> returns here (\<open>None\<close> when it goes on to build the
  pipeline) and the errors it logs.
\<close>

definition main_validate :: "bool \<times> 'e list \<Rightarrow> bool \<Rightarrow> nat option \<times> 'e list" where
  "main_validate answer validate_only =
     (case answer of
        (is_valid, errors) \<Rightarrow>
          if \<not> is_valid then (Some 1, errors)
          else if validate_only then (Some 0, [])
          else (None, []))"

text \<open>
  Vocabulary for the statements: the required keys of the schema that a configuration
  lacks, as pairs of section and key (the keys of a missing section are all lacking).
\<close>

definition lookup_key :: "config \<Rightarrow> string \<Rightarrow> string \<Rightarrow> config_value option" where
  "lookup_key cfg sec key =
     (case map_of cfg sec of None \<Rightarrow> None | Some section_cfg \<Rightarrow> map_of section_cfg key)"

definition missing_in_section :: "config \<Rightarrow> string \<times> (string \<times> range) list \<Rightarrow> (string \<times> string) list" where
  "missing_in_section cfg sec_req =
     map (\<lambda>req. (fst sec_req, fst req))
       (filter (\<lambda>req. lookup_key cfg (fst sec_req) (fst req) = None) (snd sec_req))"

definition missing_keys :: "schema \<Rightarrow> config \<Rightarrow> (string \<times> string) list" where
  "missing_keys sch cfg = concat (map (missing_in_section cfg) sch)"

definition well_formed_schema :: "schema \<Rightarrow> bool" where
  "well_formed_schema sch \<longleftrightarrow>
     distinct (map fst sch) \<and> list_all (\<lambda>sec_req. distinct (map fst (snd sec_req))) sch"

fun violation_section :: "violation \<Rightarrow> string" where
  "violation_section (Missing_section s) = s"
| "violation_section (Missing_key s k) = s"
| "violation_section (Out_of_range s k) = s"

text \<open>The schema as far as the specification spells it out, and a configuration for the examples.\<close>

definition spec_schema :: schema where
  "spec_schema =
     [(''acquisition'', []),
      (''preprocessing'', []),
      (''segmentation'', [(''minArea'', Unconstrained), (''maxArea'', Unconstrained)]),
      (''classification'', []),
      (''counting'', [(''confidenceThreshold'', Closed_range 0 1)]),
      (''analytics'', [(''bloomDominanceThreshold'', Left_open_range 0 1)]),
      (''export'', [])]"

definition incomplete_config :: config where
  "incomplete_config =
     [(''acquisition'', []),
      (''preprocessing'', []),
      (''segmentation'', [(''minArea'', Number 10)]),
      (''classification'', []),
      (''counting'', [(''confidenceThreshold'', Number 2)]),
      (''export'', [])]"

chapter \<open>Properties\<close>

section \<open>Buffered detection: queue accounting and shutdown\<close>

subsection \<open>The statistics update and one worker action\<close>

lemma count_species_error:
  "snd (count_species sc orgs) = (if Not_a_dict \<in> set orgs then Some ''AttributeError'' else None)"
  by (induction sc orgs rule: count_species.induct) auto

lemma update_stats_error: "snd (update_stats d r) = stats_error (organisms r)"
proof (cases "organisms r")
  case (Organism_list orgs)
  obtain sc exn where cs: "count_species (species_counts d) orgs = (sc, exn)"
    by (cases "count_species (species_counts d) orgs")
  with count_species_error [of "species_counts d" orgs]
  have "exn = (if Not_a_dict \<in> set orgs then Some ''AttributeError'' else None)" by simp
  with Organism_list cs show ?thesis
    by (simp add: update_stats_def stats_error_def Let_def)
next
  case Not_a_list
  then show ?thesis by (simp add: update_stats_def stats_error_def Let_def)
qed

lemma update_stats_fields:
  "frames_processed (fst (update_stats d r)) = frames_processed d + 1"
  "logged (fst (update_stats d r)) = logged d"
  "frame_queue (fst (update_stats d r)) = frame_queue d"
  "worker_frame (fst (update_stats d r)) = worker_frame d"
  "unfinished_tasks (fst (update_stats d r)) = unfinished_tasks d"
  "frames_captured (fst (update_stats d r)) = frames_captured d"
  "maxsize (fst (update_stats d r)) = maxsize d"
  "processing (fst (update_stats d r)) = processing d"
  "results_queue (fst (update_stats d r)) = results_queue d"
  by (auto simp: update_stats_def Let_def split: organisms_value.splits prod.splits)

lemma process_frame_log:
  "filter is_queue_full_warning (snd (process_frame m fr n)) = []"
  "filter is_worker_error (snd (process_frame m fr n)) = []"
  "Warning_queue_full k \<notin> set (snd (process_frame m fr n))"
  by (auto simp: process_frame_def is_queue_full_warning_def is_worker_error_def
      split: sum.splits)

lemma pass_entries_no_warning:
  "filter is_queue_full_warning (pass_entries m x) = []"
  "Warning_queue_full k \<notin> set (pass_entries m x)"
  by (auto simp: pass_entries_def pass_log_def process_frame_log is_queue_full_warning_def
      split: option.splits)

lemma pass_entries_worker_errors:
  "length (filter is_worker_error (pass_entries m x)) = (if update_raises m x then 1 else 0)"
  by (auto simp: pass_entries_def pass_log_def process_frame_log is_worker_error_def
      update_raises_def split: option.splits)


lemma passes_refl: "passes m d [] d"
  by (simp add: passes_def)

lemma passes_trans:
  "passes m d xs d1 \<Longrightarrow> passes m d1 ys d2 \<Longrightarrow> passes m d (xs @ ys) d2"
  by (auto simp: passes_def)

lemma worker_step_idle: "pending_frames d = [] \<Longrightarrow> worker_step m d = d"
  by (auto simp: pending_frames_def worker_step_def get_timeout_def split: option.splits)

lemma worker_step_get:
  assumes "worker_frame d = None" and "frame_queue d = x # q"
  shows "worker_step m d = d\<lparr>frame_queue := q, worker_frame := Some x\<rparr>"
  using assms by (simp add: worker_step_def get_timeout_def)

lemma worker_step_finish:
  assumes "worker_frame d = Some x" and "0 < unfinished_tasks d"
  shows "passes m d [x] (worker_step m d)"
proof -
  obtain fr n where x: "x = (fr, n)" by (cases x)
  obtain res lg where pf: "process_frame m fr n = (res, lg)" by (cases "process_frame m fr n")
  show ?thesis
  proof (cases res)
    case None
    then show ?thesis
      using assms x pf
      by (simp add: passes_def worker_step_def task_done_def pending_frames_def
          has_result_def pass_entries_def pass_log_def update_raises_def)
  next
    case (Some r)
    obtain d2 exn where us: "update_stats (d\<lparr>logged := logged d @ lg\<rparr>) r = (d2, exn)"
      by (cases "update_stats (d\<lparr>logged := logged d @ lg\<rparr>) r")
    have exn: "exn = stats_error (organisms r)"
      using update_stats_error [of "d\<lparr>logged := logged d @ lg\<rparr>" r] us by simp
    have d2: "frames_processed d2 = frames_processed d + 1" "logged d2 = logged d @ lg"
      "frame_queue d2 = frame_queue d" "unfinished_tasks d2 = unfinished_tasks d"
      "frames_captured d2 = frames_captured d" "maxsize d2 = maxsize d"
      "processing d2 = processing d"
      using update_stats_fields [of "d\<lparr>logged := logged d @ lg\<rparr>" r] us by simp_all
    show ?thesis
    proof (cases exn)
      case None
      then show ?thesis
        using assms x pf Some us exn d2
        by (simp add: passes_def worker_step_def task_done_def pending_frames_def
            has_result_def pass_entries_def pass_log_def update_raises_def)
    next
      case (Some e)
      then show ?thesis
        using assms x pf \<open>res = Some r\<close> us exn d2
        by (simp add: passes_def worker_step_def pending_frames_def
            has_result_def pass_entries_def pass_log_def update_raises_def)
    qed
  qed
qed

lemma worker_step_passes:
  assumes "0 < unfinished_tasks d \<or> worker_frame d = None"
  shows "\<exists>finished. passes m d finished (worker_step m d)"
proof (cases "worker_frame d")
  case None
  show ?thesis
  proof (cases "frame_queue d")
    case Nil
    with None have "worker_step m d = d"
      by (simp add: worker_step_idle pending_frames_def)
    then show ?thesis using passes_refl [of m d] by auto
  next
    case (Cons x q)
    have "passes m d [] (worker_step m d)"
      by (simp add: worker_step_get [OF None Cons] passes_def pending_frames_def None Cons)
    then show ?thesis by blast
  qed
next
  case (Some x)
  with assms have "0 < unfinished_tasks d" by simp
  from worker_step_finish [OF Some this] show ?thesis by blast
qed

lemma steps_left_worker_step:
  assumes "steps_left d \<noteq> 0"
  shows "steps_left (worker_step m d) < steps_left d"
proof (cases "worker_frame d")
  case None
  with assms obtain item rest where "frame_queue d = item # rest"
    by (cases "frame_queue d") (auto simp: steps_left_def)
  with None show ?thesis
    by (simp add: steps_left_def worker_step_def get_timeout_def)
next
  case (Some it)
  obtain fr n where it: "it = (fr, n)" by (cases it)
  obtain res lg where pf: "process_frame m fr n = (res, lg)" by (cases "process_frame m fr n")
  show ?thesis
  proof (cases res)
    case None
    then show ?thesis
      using Some it pf by (simp add: steps_left_def worker_step_def task_done_def)
  next
    case r: (Some r)
    obtain d2 exn where us: "update_stats (d\<lparr>logged := logged d @ lg\<rparr>) r = (d2, exn)"
      by (cases "update_stats (d\<lparr>logged := logged d @ lg\<rparr>) r")
    have "frame_queue d2 = frame_queue d"
      using update_stats_fields(3) [of "d\<lparr>logged := logged d @ lg\<rparr>" r] us by simp
    then show ?thesis
      using Some it pf r us
      by (cases exn) (simp_all add: steps_left_def worker_step_def task_done_def)
  qed
qed

subsection \<open>Joining the queue\<close>

lemma join_queue_some:
  assumes "join_queue m d = Some d'"
  shows "\<exists>k. d' = (worker_step m ^^ k) d \<and> unfinished_tasks d' = 0"
proof (rule join_queue.raw_induct
    [where P = "\<lambda>m d d'. \<exists>k. d' = (worker_step m ^^ k) d \<and> unfinished_tasks d' = 0",
      OF _ assms])
  fix jq :: "('a, 'b, 'c) modules \<Rightarrow> 'a detector \<Rightarrow> 'a detector option"
    and m :: "('a, 'b, 'c) modules" and d d' :: "'a detector"
  assume IH: "\<And>m d y. jq m d = Some y \<Longrightarrow>
      \<exists>k. y = (worker_step m ^^ k) d \<and> unfinished_tasks y = 0"
    and eq: "(if unfinished_tasks d = 0 then Some d else jq m (worker_step m d)) = Some d'"
  show "\<exists>k. d' = (worker_step m ^^ k) d \<and> unfinished_tasks d' = 0"
  proof (cases "unfinished_tasks d = 0")
    case True
    with eq have "d' = (worker_step m ^^ 0) d" "unfinished_tasks d' = 0" by simp_all
    then show ?thesis by blast
  next
    case False
    with eq have "jq m (worker_step m d) = Some d'" by simp
    from IH [OF this] obtain k where
      "d' = (worker_step m ^^ k) (worker_step m d)" "unfinished_tasks d' = 0" by blast
    then have "d' = (worker_step m ^^ Suc k) d" "unfinished_tasks d' = 0"
      by (simp_all add: funpow_swap1)
    then show ?thesis by blast
  qed
qed

lemma passes_worker_errors:
  "passes m d finished d' \<Longrightarrow>
     worker_errors d' = worker_errors d + length (filter (update_raises m) finished)"
proof -
  have "length (filter is_worker_error (concat (map (pass_entries m) xs)))
      = length (filter (update_raises m) xs)" for xs
    by (induction xs) (simp_all add: pass_entries_worker_errors)
  then show "passes m d finished d' \<Longrightarrow>
     worker_errors d' = worker_errors d + length (filter (update_raises m) finished)"
    by (simp add: passes_def worker_errors_def)
qed

lemma passes_dropped:
  assumes "passes m d finished d'"
  shows "dropped d' = dropped d" and "frames_dropped d' = frames_dropped d"
    and "Warning_queue_full n \<in> set (logged d') \<longleftrightarrow> Warning_queue_full n \<in> set (logged d)"
proof -
  have a: "Warning_queue_full k \<notin> set (concat (map (pass_entries m) xs))" for k xs
    by (induction xs) (simp_all add: pass_entries_no_warning)
  have b: "filter is_queue_full_warning (concat (map (pass_entries m) xs)) = []" for xs
    by (induction xs) (simp_all add: pass_entries_no_warning)
  show "Warning_queue_full n \<in> set (logged d') \<longleftrightarrow> Warning_queue_full n \<in> set (logged d)"
    using assms a by (auto simp: passes_def)
  then show "dropped d' = dropped d"
    using assms a by (auto simp: passes_def dropped_def fun_eq_iff)
  show "frames_dropped d' = frames_dropped d"
    using assms b by (simp add: passes_def frames_dropped_def)
qed

lemma passes_booked:
  assumes "passes m d finished d'" and "booked d"
  shows "booked d'"
proof -
  have "length (pending_frames d) = length finished + length (pending_frames d')"
    using assms(1) by (simp add: passes_def)
  moreover have "unfinished_tasks d' + length finished
      = unfinished_tasks d + length (filter (update_raises m) finished)"
    using assms(1) by (simp add: passes_def)
  ultimately show ?thesis
    using assms(2) passes_worker_errors [OF assms(1)] by (simp add: booked_def)
qed

lemma booked_step_ok: "booked d \<Longrightarrow> 0 < unfinished_tasks d \<or> worker_frame d = None"
  by (cases "worker_frame d") (auto simp: booked_def pending_frames_def)

lemma funpow_passes:
  "booked d \<Longrightarrow> \<exists>finished. passes m d finished ((worker_step m ^^ k) d)"
proof (induction k)
  case 0
  then show ?case using passes_refl [of m d] by auto
next
  case (Suc k)
  then obtain xs where xs: "passes m d xs ((worker_step m ^^ k) d)" by blast
  have "booked ((worker_step m ^^ k) d)"
    using xs Suc.prems by (rule passes_booked)
  then obtain ys where "passes m ((worker_step m ^^ k) d) ys (worker_step m ((worker_step m ^^ k) d))"
    using worker_step_passes [OF booked_step_ok] by blast
  with xs have "passes m d (xs @ ys) ((worker_step m ^^ Suc k) d)"
    by (simp add: passes_trans)
  then show ?case by blast
qed

lemma join_queue_passes:
  assumes "booked d" and "join_queue m d = Some d'"
  shows "passes m d (pending_frames d) d'" and "pending_frames d' = []"
    and "worker_errors d' = 0" and "unfinished_tasks d' = 0"
    and "\<exists>k. d' = (worker_step m ^^ k) d"
proof -
  from join_queue_some [OF assms(2)] obtain k where
    k: "d' = (worker_step m ^^ k) d" and u: "unfinished_tasks d' = 0" by blast
  from funpow_passes [OF assms(1), of m k] k obtain xs where xs: "passes m d xs d'" by blast
  have "booked d'" using xs assms(1) by (rule passes_booked)
  with u show e: "pending_frames d' = []" and "worker_errors d' = 0"
    by (simp_all add: booked_def)
  with xs have "xs = pending_frames d" by (simp add: passes_def)
  with xs show "passes m d (pending_frames d) d'" by simp
  show "unfinished_tasks d' = 0" by (rule u)
  show "\<exists>k. d' = (worker_step m ^^ k) d" using k by blast
qed

subsection \<open>Termination of the join in a safe session\<close>

lemma steady_booked: "steady m d \<Longrightarrow> 0 < unfinished_tasks d \<or> worker_frame d = None"
  by (cases "worker_frame d") (auto simp: steady_def pending_frames_def)

lemma steady_worker_step:
  assumes "steady m d"
  shows "steady m (worker_step m d)"
proof -
  from worker_step_passes [OF steady_booked [OF assms]] obtain xs where
    xs: "passes m d xs (worker_step m d)" by blast
  have p: "pending_frames d = xs @ pending_frames (worker_step m d)"
    using xs by (simp add: passes_def)
  with assms have safe: "list_all (\<lambda>x. \<not> update_raises m x) xs"
    "list_all (\<lambda>x. \<not> update_raises m x) (pending_frames (worker_step m d))"
    by (simp_all add: steady_def)
  then have "filter (update_raises m) xs = []"
    by (simp add: list_all_iff filter_empty_conv)
  with xs have "unfinished_tasks (worker_step m d) + length xs = unfinished_tasks d"
    by (simp add: passes_def)
  with assms p safe(2) show ?thesis by (simp add: steady_def)
qed

lemma steady_steps_left: "steady m d \<Longrightarrow> steps_left d = 0 \<longleftrightarrow> unfinished_tasks d = 0"
  by (auto simp: steady_def steps_left_def pending_frames_def split: option.splits)

lemma join_queue_returns:
  "steady m d \<Longrightarrow> \<exists>d'. join_queue m d = Some d'"
proof (induction "steps_left d" arbitrary: d rule: less_induct)
  case less
  show ?case
  proof (cases "unfinished_tasks d = 0")
    case True
    then show ?thesis by (simp add: join_queue.simps)
  next
    case False
    with less.prems have "steps_left d \<noteq> 0" by (simp add: steady_steps_left)
    then have "steps_left (worker_step m d) < steps_left d" by (rule steps_left_worker_step)
    moreover have "steady m (worker_step m d)"
      using less.prems by (rule steady_worker_step)
    ultimately obtain d' where "join_queue m (worker_step m d) = Some d'"
      using less.hyps by blast
    moreover have "join_queue m d = join_queue m (worker_step m d)"
      using False by (subst join_queue.simps) simp
    ultimately show ?thesis by simp
  qed
qed

subsection \<open>The bookkeeping of a live session\<close>

lemma accounted_passes:
  assumes "accounted m offered i d" and "passes m d xs d'"
  shows "accounted m offered i d'"
proof -
  from assms(1) obtain finished where
    f: "filter (\<lambda>x. \<not> dropped d x) offered = finished @ pending_frames d"
      "frames_processed d = length (filter (has_result m) finished)"
    by (auto simp: accounted_def)
  have p: "pending_frames d = xs @ pending_frames d'"
    and fp: "frames_processed d' = frames_processed d + length (filter (has_result m) xs)"
    and fc: "frames_captured d' = frames_captured d"
    using assms(2) by (simp_all add: passes_def)
  note dr = passes_dropped [OF assms(2)]
  have "filter (\<lambda>x. \<not> dropped d' x) offered = (finished @ xs) @ pending_frames d'"
    using f(1) p dr(1) by simp
  moreover have "frames_processed d' = length (filter (has_result m) (finished @ xs))"
    using f(2) fp by simp
  ultimately have "\<exists>finished. filter (\<lambda>x. \<not> dropped d' x) offered = finished @ pending_frames d' \<and>
      frames_processed d' = length (filter (has_result m) finished)"
    by blast
  moreover have "booked d'"
    using assms by (auto simp: accounted_def intro: passes_booked)
  ultimately show ?thesis
    using assms(1) fc dr by (simp add: accounted_def)
qed

lemma accounted_worker_step:
  assumes "accounted m offered i d"
  shows "accounted m offered i (worker_step m d)"
proof -
  have "booked d" using assms by (simp add: accounted_def)
  from worker_step_passes [OF booked_step_ok [OF this]] obtain xs where
    "passes m d xs (worker_step m d)" by blast
  with assms show ?thesis by (rule accounted_passes)
qed

lemma accounted_init: "accounted m [] 0 ((init_detector qs)\<lparr>processing := True\<rparr>)"
  by (simp add: accounted_def init_detector_def frames_dropped_def booked_def
      pending_frames_def worker_errors_def)

lemma offered_numbers:
  assumes "map snd offered = [1..<Suc (length offered)]" and "x \<in> set offered"
  shows "snd x \<le> length offered"
proof -
  from assms(2) have "snd x \<in> set (map snd offered)" by simp
  then have "snd x \<in> set [1..<Suc (length offered)]" by (simp only: assms(1))
  then show ?thesis by (simp del: upt_Suc)
qed

lemma dropped_update:
  "dropped (d\<lparr>frames_captured := a\<rparr>) = dropped d"
  "dropped (d\<lparr>frame_queue := q\<rparr>) = dropped d"
  "dropped (d\<lparr>unfinished_tasks := u\<rparr>) = dropped d"
  "dropped (d\<lparr>processing := b\<rparr>) = dropped d"
  "dropped (d\<lparr>results_queue := rq\<rparr>) = dropped d"
  by (simp_all add: dropped_def fun_eq_iff)

lemma capture_frame_full:
  assumes "0 < maxsize d \<and> maxsize d \<le> int (length (frame_queue d))"
  shows "capture_frame d fr =
           d\<lparr>frames_captured := Suc (frames_captured d),
             logged := logged d @ [Warning_queue_full (Suc (frames_captured d))]\<rparr>"
  using assms by (simp add: capture_frame_def put_nowait_def Let_def)

lemma capture_frame_queued:
  assumes "\<not> (0 < maxsize d \<and> maxsize d \<le> int (length (frame_queue d)))"
  shows "capture_frame d fr =
           d\<lparr>frames_captured := Suc (frames_captured d),
             frame_queue := frame_queue d @ [(fr, Suc (frames_captured d))],
             unfinished_tasks := Suc (unfinished_tasks d)\<rparr>"
  using assms by (simp add: capture_frame_def put_nowait_def Let_def)

lemma accounted_capture_frame:
  assumes "accounted m offered 0 d"
  shows "accounted m (offered @ [(fr, length offered + 1)]) 0 (capture_frame d fr)"
proof -
  let ?n = "Suc (length offered)"
  let ?new = "(fr, ?n)"
  from assms have cap: "frames_captured d = length offered"
    and nums: "map snd offered = [1..<Suc (length offered)]"
    and warn: "\<forall>n. Warning_queue_full n \<in> set (logged d) \<longrightarrow> n \<le> length offered"
    and drp: "frames_dropped d = length (filter (dropped d) offered)"
    and bk: "booked d"
    by (simp_all add: accounted_def)
  from assms obtain finished where
    f: "filter (\<lambda>x. \<not> dropped d x) offered = finished @ pending_frames d"
      "frames_processed d = length (filter (has_result m) finished)"
    by (auto simp: accounted_def)
  have nums': "map snd (offered @ [?new]) = [1..<Suc (length (offered @ [?new]))]"
    using nums by simp
  have fresh: "\<not> dropped d ?new"
    using warn by (auto simp: dropped_def)
  have "accounted m (offered @ [?new]) 0 (capture_frame d fr)"
  proof (cases "0 < maxsize d \<and> maxsize d \<le> int (length (frame_queue d))")
    case True
    define d' where "d' = capture_frame d fr"
    have d': "d' = d\<lparr>frames_captured := ?n, logged := logged d @ [Warning_queue_full ?n]\<rparr>"
      unfolding d'_def using capture_frame_full [OF True] cap by simp
    have old: "dropped d' x = dropped d x" if "x \<in> set offered" for x
      using offered_numbers [OF nums that] by (auto simp: d' dropped_def)
    have new: "dropped d' ?new" by (simp add: d' dropped_def)
    have f1: "filter (dropped d') offered = filter (dropped d) offered"
      using old by (auto intro: filter_cong)
    have f2: "filter (\<lambda>x. \<not> dropped d' x) offered = filter (\<lambda>x. \<not> dropped d x) offered"
      using old by (auto intro: filter_cong)
    have fd: "frames_dropped d' = frames_dropped d + 1"
      by (simp add: d' frames_dropped_def is_queue_full_warning_def)
    have pend: "pending_frames d' = pending_frames d"
      by (simp add: d' pending_frames_def)
    have bk': "booked d'"
      using bk by (simp add: d' booked_def pending_frames_def worker_errors_def
          is_worker_error_def)
    have w: "\<forall>n. Warning_queue_full n \<in> set (logged d') \<longrightarrow> n \<le> length (offered @ [?new])"
      using warn by (auto simp: d')
    have c: "frames_captured d' = length (offered @ [?new]) + 0" by (simp add: d')
    have fp: "frames_processed d' = frames_processed d" by (simp add: d')
    have "filter (\<lambda>x. \<not> dropped d' x) (offered @ [?new]) = finished @ pending_frames d'"
      using f2 new f(1) pend by simp
    then have ex: "\<exists>finished. filter (\<lambda>x. \<not> dropped d' x) (offered @ [?new])
          = finished @ pending_frames d' \<and>
        frames_processed d' = length (filter (has_result m) finished)"
      using fp f(2) by auto
    have fdl: "frames_dropped d' = length (filter (dropped d') (offered @ [?new]))"
      using fd f1 new drp by simp
    have "accounted m (offered @ [?new]) 0 d'"
      unfolding accounted_def using c nums' w fdl bk' ex by (intro conjI)
    then show ?thesis by (simp add: d'_def)
  next
    case False
    define d' where "d' = capture_frame d fr"
    have d': "d' = d\<lparr>frames_captured := ?n, frame_queue := frame_queue d @ [?new],
                 unfinished_tasks := Suc (unfinished_tasks d)\<rparr>"
      unfolding d'_def using capture_frame_queued [OF False] cap by simp
    have same: "dropped d' = dropped d" by (simp add: d' dropped_update)
    have fd: "frames_dropped d' = frames_dropped d" by (simp add: d' frames_dropped_def)
    have pend: "pending_frames d' = pending_frames d @ [?new]"
      by (simp add: d' pending_frames_def)
    have bk': "booked d'"
      using bk by (simp add: d' booked_def pending_frames_def worker_errors_def)
    have w: "\<forall>n. Warning_queue_full n \<in> set (logged d') \<longrightarrow> n \<le> length (offered @ [?new])"
      using warn by (auto simp: d')
    have c: "frames_captured d' = length (offered @ [?new]) + 0" by (simp add: d')
    have fp: "frames_processed d' = frames_processed d" by (simp add: d')
    have "filter (\<lambda>x. \<not> dropped d' x) (offered @ [?new]) = finished @ pending_frames d'"
      using f(1) fresh by (simp add: same pend)
    then have ex: "\<exists>finished. filter (\<lambda>x. \<not> dropped d' x) (offered @ [?new])
          = finished @ pending_frames d' \<and>
        frames_processed d' = length (filter (has_result m) finished)"
      using fp f(2) by auto
    have fdl: "frames_dropped d' = length (filter (dropped d') (offered @ [?new]))"
      using fd fresh drp by (simp add: same)
    have "accounted m (offered @ [?new]) 0 d'"
      unfolding accounted_def using c nums' w fdl bk' ex by (intro conjI)
    then show ?thesis by (simp add: d'_def)
  qed
  then show ?thesis by simp
qed

lemma accounted_interrupt:
  assumes "accounted m offered 0 d"
  shows "accounted m offered 1 (d\<lparr>frames_captured := frames_captured d + 1\<rparr>)"
proof -
  have "dropped (d\<lparr>frames_captured := frames_captured d + 1\<rparr>) = dropped d"
    by (simp add: dropped_def fun_eq_iff)
  then show ?thesis
    using assms
    by (simp add: accounted_def frames_dropped_def booked_def pending_frames_def
        worker_errors_def)
qed

lemma recording_loop_live_accounted:
  assumes "accounted m offered 0 d" and "recording_loop m True es (d, fs) = (d', fs')"
  shows "accounted m (offered @ numbered_frames es (length offered)) (interrupted es) d'"
  using assms
proof (induction es arbitrary: d offered)
  case Nil
  then show ?case by simp
next
  case (Cons e es)
  show ?case
  proof (cases e)
    case (Frame fr)
    have a: "accounted m (offered @ [(fr, length offered + 1)]) 0 (capture_frame d fr)"
      using Cons.prems(1) by (rule accounted_capture_frame)
    have r: "recording_loop m True es (capture_frame d fr, fs) = (d', fs')"
      using Cons.prems(2) Frame by simp
    from Cons.IH [OF a r] show ?thesis using Frame by simp
  next
    case Worker
    have a: "accounted m offered 0 (if processing d then worker_step m d else d)"
      using Cons.prems(1) by (simp add: accounted_worker_step)
    have r: "recording_loop m True es (if processing d then worker_step m d else d, fs) = (d', fs')"
      using Cons.prems(2) Worker by simp
    from Cons.IH [OF a r] show ?thesis using Worker by simp
  next
    case Interrupted
    then have "d' = d\<lparr>frames_captured := frames_captured d + 1\<rparr>"
      using Cons.prems(2) by simp
    then show ?thesis
      using accounted_interrupt [OF Cons.prems(1)] Interrupted by simp
  qed
qed

lemma accounted_identity:
  assumes "accounted m offered i d" and "pending_frames d = []"
  shows "frames_captured d =
           frames_processed d + frames_dropped d
             + length (filter (\<lambda>x. \<not> dropped d x \<and> \<not> has_result m x) offered) + i"
proof -
  from assms obtain finished where
    f: "filter (\<lambda>x. \<not> dropped d x) offered = finished"
      "frames_processed d = length (filter (has_result m) finished)"
    by (auto simp: accounted_def)
  have "length offered = length (filter (dropped d) offered)
      + length (filter (\<lambda>x. \<not> dropped d x) offered)"
    by (rule sum_length_filter_compl [symmetric])
  moreover have "length finished = length (filter (has_result m) finished)
      + length (filter (\<lambda>x. \<not> has_result m x) finished)"
    by (rule sum_length_filter_compl [symmetric])
  moreover have "filter (\<lambda>x. \<not> has_result m x) finished
      = filter (\<lambda>x. \<not> dropped d x \<and> \<not> has_result m x) offered"
    using f(1) by (auto simp: filter_filter conj_commute)
  ultimately show ?thesis
    using assms(1) f by (simp add: accounted_def)
qed

lemma steady_init: "steady m ((init_detector qs)\<lparr>processing := True\<rparr>)"
  by (simp add: steady_def init_detector_def pending_frames_def)

lemma capture_frame_captured: "frames_captured (capture_frame d fr) = Suc (frames_captured d)"
  by (cases "0 < maxsize d \<and> maxsize d \<le> int (length (frame_queue d))")
    (simp_all add: capture_frame_full capture_frame_queued)

lemma steady_capture_frame:
  assumes "steady m d" and "\<not> update_raises m (fr, Suc (frames_captured d))"
  shows "steady m (capture_frame d fr)"
proof (cases "0 < maxsize d \<and> maxsize d \<le> int (length (frame_queue d))")
  case True
  show ?thesis
    using assms(1) by (simp add: capture_frame_full [OF True] steady_def pending_frames_def)
next
  case False
  show ?thesis
    using assms by (simp add: capture_frame_queued [OF False] steady_def pending_frames_def)
qed

lemma worker_step_captured:
  assumes "steady m d"
  shows "frames_captured (worker_step m d) = frames_captured d"
proof -
  from worker_step_passes [OF steady_booked [OF assms]] obtain xs where
    "passes m d xs (worker_step m d)" by blast
  then show ?thesis by (simp add: passes_def)
qed

lemma recording_loop_live_steady:
  assumes "steady m d"
    and "list_all (\<lambda>x. \<not> update_raises m x) (numbered_frames es (frames_captured d))"
    and "recording_loop m True es (d, fs) = (d', fs')"
  shows "steady m d'"
  using assms
proof (induction es arbitrary: d)
  case Nil
  then show ?case by simp
next
  case (Cons e es)
  show ?case
  proof (cases e)
    case (Frame fr)
    have "steady m (capture_frame d fr)"
      using Cons.prems(1,2) Frame by (simp add: steady_capture_frame)
    moreover have "list_all (\<lambda>x. \<not> update_raises m x)
        (numbered_frames es (frames_captured (capture_frame d fr)))"
      using Cons.prems(2) Frame by (simp add: capture_frame_captured)
    moreover have "recording_loop m True es (capture_frame d fr, fs) = (d', fs')"
      using Cons.prems(3) Frame by simp
    ultimately show ?thesis by (rule Cons.IH)
  next
    case Worker
    let ?d = "if processing d then worker_step m d else d"
    have "steady m ?d"
      using Cons.prems(1) by (simp add: steady_worker_step)
    moreover have "frames_captured ?d = frames_captured d"
      using Cons.prems(1) by (simp add: worker_step_captured)
    then have "list_all (\<lambda>x. \<not> update_raises m x) (numbered_frames es (frames_captured ?d))"
      using Cons.prems(2) Worker by simp
    moreover have "recording_loop m True es (?d, fs) = (d', fs')"
      using Cons.prems(3) Worker by simp
    ultimately show ?thesis by (rule Cons.IH)
  next
    case Interrupted
    then have "d' = d\<lparr>frames_captured := frames_captured d + 1\<rparr>"
      using Cons.prems(3) by simp
    then show ?thesis
      using Cons.prems(1) by (simp add: steady_def pending_frames_def)
  qed
qed

subsection \<open>Post-processing\<close>

lemma recording_loop_offline:
  assumes "recording_loop m False es (d, fs) = (d', fs')" and "\<not> processing d"
  shows "d' = d\<lparr>frames_captured :=
                  frames_captured d + length (numbered_frames es (frames_captured d))
                    + interrupted es\<rparr> \<and>
         fs' = fs @ numbered_frames es (frames_captured d)"
  using assms
proof (induction es arbitrary: d fs)
  case Nil
  then show ?case by simp
next
  case (Cons e es)
  show ?case
  proof (cases e)
    case (Frame fr)
    let ?d1 = "d\<lparr>frames_captured := frames_captured d + 1\<rparr>"
    have "recording_loop m False es (?d1, fs @ [(fr, frames_captured ?d1)]) = (d', fs')"
      using Cons.prems(1) Frame by (simp add: Let_def)
    moreover have "\<not> processing ?d1" using Cons.prems(2) by simp
    ultimately have "d' = ?d1\<lparr>frames_captured :=
          frames_captured ?d1 + length (numbered_frames es (frames_captured ?d1))
            + interrupted es\<rparr> \<and>
        fs' = (fs @ [(fr, frames_captured ?d1)]) @ numbered_frames es (frames_captured ?d1)"
      by (rule Cons.IH)
    then show ?thesis using Frame by simp
  next
    case Worker
    have "recording_loop m False es (d, fs) = (d', fs')"
      using Cons.prems Worker by simp
    from Cons.IH [OF this Cons.prems(2)] show ?thesis using Worker by simp
  next
    case Interrupted
    then show ?thesis using Cons.prems(1) by simp
  qed
qed

lemma post_process_frames_fields:
  assumes "post_process_frames m fs d = Inr d'"
  shows "frames_processed d' = frames_processed d + length (filter (has_result m) fs) \<and>
         frames_captured d' = frames_captured d \<and>
         frames_dropped d' = frames_dropped d \<and>
         dropped d' = dropped d \<and>
         frame_queue d' = frame_queue d \<and>
         worker_frame d' = worker_frame d \<and>
         unfinished_tasks d' = unfinished_tasks d"
  using assms
proof (induction fs arbitrary: d)
  case Nil
  then show ?case by simp
next
  case (Cons a fs)
  obtain fr n where a: "a = (fr, n)" by (cases a)
  obtain res lg where pf: "process_frame m fr n = (res, lg)" by (cases "process_frame m fr n")
  have lg: "filter is_queue_full_warning lg = []" "\<And>k. Warning_queue_full k \<notin> set lg"
    using process_frame_log [where m = m and fr = fr and n = n] pf by simp_all
  let ?d1 = "d\<lparr>logged := logged d @ lg\<rparr>"
  have d1: "frames_dropped ?d1 = frames_dropped d" "dropped ?d1 = dropped d"
    using lg by (simp_all add: frames_dropped_def dropped_def fun_eq_iff)
  show ?case
  proof (cases res)
    case None
    with Cons.prems a pf have "post_process_frames m fs ?d1 = Inr d'" by simp
    from Cons.IH [OF this] show ?thesis
      using None a pf d1 by (simp add: has_result_def)
  next
    case (Some r)
    obtain d2 exn where us: "update_stats ?d1 r = (d2, exn)" by (cases "update_stats ?d1 r")
    with Cons.prems a pf Some have exn: "exn = None"
      and rest: "post_process_frames m fs (d2\<lparr>results_queue := results_queue d2 @ [r]\<rparr>) = Inr d'"
      by (cases exn; simp)+
    have d2: "frames_processed d2 = frames_processed d + 1" "logged d2 = logged ?d1"
      "frame_queue d2 = frame_queue d" "worker_frame d2 = worker_frame d"
      "unfinished_tasks d2 = unfinished_tasks d" "frames_captured d2 = frames_captured d"
      using update_stats_fields [of ?d1 r] us by simp_all
    have "frames_dropped (d2\<lparr>results_queue := results_queue d2 @ [r]\<rparr>) = frames_dropped d"
      "dropped (d2\<lparr>results_queue := results_queue d2 @ [r]\<rparr>) = dropped d"
      using d1 d2(2) by (simp_all add: frames_dropped_def dropped_def fun_eq_iff)
    with Cons.IH [OF rest] show ?thesis
      using Some a pf d2 by (simp add: has_result_def)
  qed
qed

lemma post_process_frames_returns:
  "list_all (\<lambda>x. \<not> update_raises m x) fs \<Longrightarrow> \<exists>d'. post_process_frames m fs d = Inr d'"
proof (induction fs arbitrary: d)
  case Nil
  then show ?case by simp
next
  case (Cons a fs)
  obtain fr n where a: "a = (fr, n)" by (cases a)
  obtain res lg where pf: "process_frame m fr n = (res, lg)" by (cases "process_frame m fr n")
  from Cons.prems have rest: "list_all (\<lambda>x. \<not> update_raises m x) fs"
    and safe: "\<not> update_raises m (fr, n)" by (simp_all add: a)
  show ?case
  proof (cases res)
    case None
    then show ?thesis using a pf Cons.IH [OF rest] by simp
  next
    case (Some r)
    let ?d1 = "d\<lparr>logged := logged d @ lg\<rparr>"
    obtain d2 exn where us: "update_stats ?d1 r = (d2, exn)" by (cases "update_stats ?d1 r")
    have "exn = None"
      using safe pf Some update_stats_error [of ?d1 r] us by (simp add: update_raises_def)
    then show ?thesis using a pf Some us Cons.IH [OF rest] by simp
  qed
qed

lemma finalize_fields:
  "frames_captured (finalize live d) = frames_captured d"
  "frames_processed (finalize live d) = frames_processed d"
  "frames_dropped (finalize live d) = frames_dropped d"
  "dropped (finalize live d) = dropped d"
  "logged (finalize live d) = logged d"
  "frame_queue (finalize live d) = frame_queue d"
  "worker_frame (finalize live d) = worker_frame d"
  "unfinished_tasks (finalize live d) = unfinished_tasks d"
  by (simp_all add: finalize_def generate_annotated_video_def Let_def frames_dropped_def
      dropped_def fun_eq_iff)

subsection \<open>Sessions\<close>

lemma record_and_process_live:
  "record_and_process m (init_detector qs) True True schedule =
     (case join_queue m (stop_state m qs schedule) of
        None \<Rightarrow> None
      | Some d3 \<Rightarrow> Some (Inr (finalize True d3)))"
  by (simp add: record_and_process_def finish_recording_def stop_state_def split: prod.splits)

lemma stop_state_accounted:
  "accounted m (numbered_frames schedule 0) (interrupted schedule) (stop_state m qs schedule)"
proof -
  obtain d2 fs where rl:
    "recording_loop m True schedule ((init_detector qs)\<lparr>processing := True\<rparr>, []) = (d2, fs)"
    by (cases "recording_loop m True schedule ((init_detector qs)\<lparr>processing := True\<rparr>, [])")
  from recording_loop_live_accounted [OF accounted_init rl]
  show ?thesis by (simp add: stop_state_def rl)
qed

lemma stop_state_steady:
  assumes "safe_session m schedule"
  shows "steady m (stop_state m qs schedule)"
proof -
  obtain d2 fs where rl:
    "recording_loop m True schedule ((init_detector qs)\<lparr>processing := True\<rparr>, []) = (d2, fs)"
    by (cases "recording_loop m True schedule ((init_detector qs)\<lparr>processing := True\<rparr>, [])")
  have "list_all (\<lambda>x. \<not> update_raises m x)
      (numbered_frames schedule (frames_captured ((init_detector qs)\<lparr>processing := True\<rparr>)))"
    using assms by (simp add: safe_session_def init_detector_def)
  from recording_loop_live_steady [OF steady_init this rl]
  show ?thesis by (simp add: stop_state_def rl)
qed

lemma live_session_effects:
  assumes "record_and_process m (init_detector qs) True True schedule = Some (Inr d)"
  shows "\<exists>d3. join_queue m (stop_state m qs schedule) = Some d3 \<and> d = finalize True d3 \<and>
           passes m (stop_state m qs schedule) (pending_frames (stop_state m qs schedule)) d3 \<and>
           pending_frames d3 = [] \<and> worker_errors d3 = 0 \<and> unfinished_tasks d3 = 0 \<and>
           (\<exists>k. d3 = (worker_step m ^^ k) (stop_state m qs schedule))"
proof -
  from assms obtain d3 where j: "join_queue m (stop_state m qs schedule) = Some d3"
    and d: "d = finalize True d3"
    by (auto simp: record_and_process_live split: option.splits)
  have "booked (stop_state m qs schedule)"
    using stop_state_accounted [of m schedule qs] by (simp add: accounted_def)
  from join_queue_passes [OF this j] j d show ?thesis by blast
qed

lemma live_session_identity:
  assumes "record_and_process m (init_detector qs) True True schedule = Some (Inr d)"
  shows "frames_captured d =
           frames_processed d + frames_dropped d + frames_without_result m d schedule
             + interrupted schedule"
proof -
  from live_session_effects [OF assms] obtain d3 where
    d: "d = finalize True d3"
    and p: "passes m (stop_state m qs schedule) (pending_frames (stop_state m qs schedule)) d3"
    and e: "pending_frames d3 = []"
    by blast
  have "accounted m (numbered_frames schedule 0) (interrupted schedule) d3"
    using stop_state_accounted p by (rule accounted_passes)
  from accounted_identity [OF this e] show ?thesis
    by (simp add: d finalize_fields frames_without_result_def)
qed

lemma live_session_returns:
  assumes "safe_session m schedule"
  shows "\<exists>d. record_and_process m (init_detector qs) True True schedule = Some (Inr d)"
proof -
  from join_queue_returns [OF stop_state_steady [OF assms]]
  obtain d3 where "join_queue m (stop_state m qs schedule) = Some d3" by blast
  then show ?thesis by (simp add: record_and_process_live)
qed

lemma record_and_process_offline:
  "record_and_process m (init_detector qs) True False schedule =
     (let fs = numbered_frames schedule 0;
          d2 = (init_detector qs)\<lparr>frames_captured := length fs + interrupted schedule\<rparr>
      in if fs \<noteq> []
         then (case post_process_frames m fs d2 of
                 Inl e \<Rightarrow> Some (Inl e)
               | Inr d3 \<Rightarrow> Some (Inr (finalize False d3)))
         else Some (Inr (finalize False d2)))"
proof -
  obtain d2 fs where rl: "recording_loop m False schedule (init_detector qs, []) = (d2, fs)"
    by (cases "recording_loop m False schedule (init_detector qs :: 'a detector, [])")
  have np: "\<not> processing (init_detector qs :: 'a detector)" by (simp add: init_detector_def)
  from recording_loop_offline [OF rl np]
  have "d2 = (init_detector qs)\<lparr>frames_captured :=
        length (numbered_frames schedule 0) + interrupted schedule\<rparr>"
    and "fs = numbered_frames schedule 0"
    by (simp_all add: init_detector_def)
  then show ?thesis
    using rl by (simp add: record_and_process_def finish_recording_def Let_def)
qed

lemma offline_session_identity:
  assumes "record_and_process m (init_detector qs) True False schedule = Some (Inr d)"
  shows "frames_captured d =
           frames_processed d + frames_dropped d + frames_without_result m d schedule
             + interrupted schedule"
proof -
  let ?fs = "numbered_frames schedule 0"
  let ?d2 = "(init_detector qs :: 'a detector)\<lparr>frames_captured := length ?fs + interrupted schedule\<rparr>"
  have d2: "frames_processed ?d2 = 0" "frames_dropped ?d2 = 0" "\<And>x. \<not> dropped ?d2 x"
    "frames_captured ?d2 = length ?fs + interrupted schedule"
    by (simp_all add: init_detector_def frames_dropped_def dropped_def)
  have split: "length ?fs = length (filter (has_result m) ?fs)
      + length (filter (\<lambda>x. \<not> has_result m x) ?fs)"
    by (rule sum_length_filter_compl [symmetric])
  show ?thesis
  proof (cases "?fs = []")
    case True
    with assms have "d = finalize False ?d2"
      by (simp add: record_and_process_offline Let_def)
    then show ?thesis
      using d2 True by (simp add: finalize_fields frames_without_result_def)
  next
    case False
    with assms obtain d3 where pp: "post_process_frames m ?fs ?d2 = Inr d3"
      and d: "d = finalize False d3"
      by (auto simp: record_and_process_offline Let_def split: sum.splits)
    from post_process_frames_fields [OF pp] d2 split show ?thesis
      by (simp add: d finalize_fields frames_without_result_def)
  qed
qed

lemma offline_session_returns:
  assumes "safe_session m schedule"
  shows "\<exists>d. record_and_process m (init_detector qs) True False schedule = Some (Inr d)"
proof -
  let ?fs = "numbered_frames schedule 0"
  let ?d2 = "(init_detector qs :: 'a detector)\<lparr>frames_captured := length ?fs + interrupted schedule\<rparr>"
  from assms have "list_all (\<lambda>x. \<not> update_raises m x) ?fs" by (simp add: safe_session_def)
  from post_process_frames_returns [OF this, of ?d2]
  obtain d3 where "post_process_frames m ?fs ?d2 = Inr d3" by blast
  then show ?thesis by (simp add: record_and_process_offline Let_def)
qed

lemma join_queue_blocked:
  assumes "booked d" and "0 < worker_errors d"
  shows "join_queue m d = None"
proof (rule ccontr)
  assume "join_queue m d \<noteq> None"
  then obtain d' where j: "join_queue m d = Some d'" by blast
  from join_queue_passes(1,3) [OF assms(1) j] passes_worker_errors [of m d _ d'] assms(2)
  show False by fastforce
qed

text \<open>
  Claim C1, as the code has it. A session of \<open>record_and_process\<close> on a fresh detector
  whose camera opens, live or post-processed, returns when the statistics update raises
  on no frame of the session; and whenever it returns, the frames captured are exactly
  the frames processed, plus the frames dropped at a full queue (one warning each), plus
  the frames of the session that went through a pass without a result, plus one if the
  recording loop was interrupted between counting a frame and queueing it.
\<close>

theorem session_accounting:
  "(safe_session m schedule \<longrightarrow>
      (\<exists>d. record_and_process m (init_detector qs) True live schedule = Some (Inr d))) \<and>
   (\<forall>d. record_and_process m (init_detector qs) True live schedule = Some (Inr d) \<longrightarrow>
      frames_captured d =
        frames_processed d + frames_dropped d + frames_without_result m d schedule
          + interrupted schedule)"
proof (cases live)
  case True
  then have "live = True" by simp
  show ?thesis
    unfolding \<open>live = True\<close>
    using live_session_returns [of m schedule qs] live_session_identity [of m qs schedule]
    by blast
next
  case False
  then have "live = False" by simp
  show ?thesis
    unfolding \<open>live = False\<close>
    using offline_session_returns [of m schedule qs] offline_session_identity [of m qs schedule]
    by blast
qed

lemma example_session_value:
  "record_and_process picky_modules (init_detector 1) True True example_schedule =
     Some (Inr \<lparr>frame_queue = [], maxsize = 1, unfinished_tasks = 0, results_queue = [],
               frames_captured = 4, frames_processed = 1, total_organisms = 1,
               species_counts = [(''copepod'', 1)], processing = False,
               worker_frame = None, logged = [Warning_queue_full 2]\<rparr>)"
  by (simp add: record_and_process_def finish_recording_def finalize_def
      join_queue.simps capture_frame_def put_nowait_def init_detector_def worker_step_def
      get_timeout_def task_done_def process_frame_def process_frame_body_def
      picky_modules_def working_modules_def example_schedule_def update_stats_def
      species_of_def generate_annotated_video_def Let_def)

theorem session_accounting_witness:
  "safe_session picky_modules example_schedule \<and>
   map_option (map_sum id session_stats)
     (record_and_process picky_modules (init_detector 1) True True example_schedule)
     = Some (Inr (4, 1, 1)) \<and>
   map_option (map_sum id (\<lambda>d. frames_without_result picky_modules d example_schedule))
     (record_and_process picky_modules (init_detector 1) True True example_schedule)
     = Some (Inr 1) \<and>
   interrupted example_schedule = 1"
proof -
  let ?d = "\<lparr>frame_queue = [], maxsize = 1, unfinished_tasks = 0, results_queue = [],
             frames_captured = 4, frames_processed = 1, total_organisms = 1,
             species_counts = [(''copepod'', 1)], processing = False,
             worker_frame = None, logged = [Warning_queue_full 2]\<rparr> :: nat detector"
  have safe: "safe_session picky_modules example_schedule"
    by (simp add: safe_session_def example_schedule_def update_raises_def process_frame_def
        process_frame_body_def picky_modules_def working_modules_def stats_error_def)
  have stats: "session_stats ?d = (4, 1, 1)"
    by (simp add: session_stats_def frames_dropped_def is_queue_full_warning_def)
  have i: "interrupted example_schedule = 1" by (simp add: example_schedule_def)
  from session_accounting [of picky_modules example_schedule 1 True] example_session_value
  have "frames_captured ?d =
      frames_processed ?d + frames_dropped ?d
        + frames_without_result picky_modules ?d example_schedule
        + interrupted example_schedule"
    by blast
  then have "frames_without_result picky_modules ?d example_schedule = 1"
    using stats i by (simp add: session_stats_def)
  then show ?thesis
    using safe stats i by (simp add: example_session_value)
qed

text \<open>
  Claim C1 as stated fails: one frame is captured and queued, its preprocessing returns the
  status \<open>error\<close>, and the session ends with one frame captured, none processed and none
  dropped.
\<close>

theorem session_accounting_counterexample:
  "map_option (map_sum id session_stats)
     (record_and_process failing_modules (init_detector 100) True True [Frame 0])
   = Some (Inr (1, 0, 0))"
  by (simp add: record_and_process_def finish_recording_def finalize_def join_queue.simps
      capture_frame_def put_nowait_def init_detector_def worker_step_def get_timeout_def
      task_done_def process_frame_def process_frame_body_def failing_modules_def
      working_modules_def session_stats_def frames_dropped_def Let_def)

text \<open>
  A session whose classifier returns a value without a length: the statistics update
  raises in the worker, the handler skips \<open>task_done\<close>, and the join never returns.
\<close>

lemma malformed_session_blocks:
  "record_and_process malformed_modules (init_detector 100) True True [Frame 0, Worker, Worker]
     = None"
proof -
  let ?d = "stop_state malformed_modules 100 [Frame 0, Worker, Worker]"
  have d: "?d = (init_detector 100)\<lparr>processing := True, frames_captured := 1,
      frames_processed := 1, unfinished_tasks := 1, logged := [Error_worker ''TypeError'']\<rparr>"
    by (simp add: stop_state_def capture_frame_def put_nowait_def init_detector_def
        worker_step_def get_timeout_def process_frame_def process_frame_body_def
        malformed_modules_def working_modules_def update_stats_def Let_def)
  have "booked ?d" "0 < worker_errors ?d"
    by (simp_all add: d booked_def pending_frames_def worker_errors_def is_worker_error_def
        init_detector_def)
  then have "join_queue malformed_modules ?d = None" by (rule join_queue_blocked)
  then show ?thesis by (simp add: record_and_process_live)
qed



text \<open>
  Claim C4. When the bounded queue is full, the non-blocking put raises \<open>Full\<close>, the
  recording loop catches it: the iteration returns a detector in which the queue is what it
  was (the incoming frame is the one dropped), one warning naming the frame is logged, and
  the loop goes on with the rest of the schedule.
\<close>

theorem queue_full_drops_incoming:
  assumes "0 < maxsize d" and "maxsize d \<le> int (length (frame_queue d))"
  shows "put_nowait (d\<lparr>frames_captured := frames_captured d + 1\<rparr>) (fr, frames_captured d + 1)
           = Inl Full \<and>
         capture_frame d fr =
           d\<lparr>frames_captured := frames_captured d + 1,
             logged := logged d @ [Warning_queue_full (frames_captured d + 1)]\<rparr> \<and>
         recording_loop m True (Frame fr # es) (d, fs) =
           recording_loop m True es
             (d\<lparr>frames_captured := frames_captured d + 1,
                logged := logged d @ [Warning_queue_full (frames_captured d + 1)]\<rparr>, fs)"
  using assms by (simp add: capture_frame_def put_nowait_def Let_def)

theorem queue_full_drops_incoming_witness:
  "0 < maxsize (capture_frame (init_detector 1) (7::nat)) \<and>
   maxsize (capture_frame (init_detector 1) (7::nat))
     \<le> int (length (frame_queue (capture_frame (init_detector 1) (7::nat)))) \<and>
   frame_queue (capture_frame (capture_frame (init_detector 1) (7::nat)) 8) = [(7, 1)] \<and>
   logged (capture_frame (capture_frame (init_detector 1) (7::nat)) 8) = [Warning_queue_full 2]"
proof -
  let ?d = "capture_frame (init_detector 1) (7::nat)"
  have d: "?d = (init_detector 1)\<lparr>frame_queue := [(7, 1)], unfinished_tasks := 1,
      frames_captured := 1\<rparr>"
    by (simp add: capture_frame_def put_nowait_def init_detector_def Let_def)
  have h1: "0 < maxsize ?d" and h2: "maxsize ?d \<le> int (length (frame_queue ?d))"
    by (simp_all add: d) (simp_all add: init_detector_def)
  from queue_full_drops_incoming [OF h1 h2, of 8 working_modules "[]" "[]"]
  have "capture_frame ?d 8 =
      ?d\<lparr>frames_captured := frames_captured ?d + 1,
         logged := logged ?d @ [Warning_queue_full (frames_captured ?d + 1)]\<rparr>"
    by blast
  then show ?thesis
    using h1 h2 by (simp add: d) (simp add: init_detector_def)
qed

text \<open>
  Claim C9, as the code has it. When the pass on the frame the worker holds returns
  nothing, the worker's action only marks the task done, releases the frame and appends
  what the pass logged: the counters, the species counts and the results queue are
  untouched and the loop flag stays as it is. The pass logs an error exactly when a call
  raised; an early return on a status other than \<open>success\<close> logs nothing.
\<close>

theorem failed_frame_isolated:
  assumes "worker_frame d = Some (fr, n)" and "fst (process_frame m fr n) = None"
  shows "worker_step m d =
           (task_done d)\<lparr>worker_frame := None,
                          logged := logged d @ snd (process_frame m fr n)\<rparr> \<and>
         snd (process_frame m fr n) =
           (case process_frame_body m fr n of
              Inl e \<Rightarrow> [Error_processing_frame n e]
            | Inr _ \<Rightarrow> [])"
  using assms
  by (cases "process_frame m fr n")
    (auto simp: worker_step_def task_done_def Let_def process_frame_def split: sum.splits)

theorem failed_frame_isolated_witness:
  "worker_frame (worker_step raising_modules (capture_frame (init_detector 100) 0))
     = Some (0, 1) \<and>
   fst (process_frame raising_modules 0 1) = None \<and>
   logged (worker_step raising_modules
          (worker_step raising_modules (capture_frame (init_detector 100) 0)))
     = [Error_processing_frame 1 ''boom''] \<and>
   frames_processed (worker_step raising_modules
          (worker_step raising_modules (capture_frame (init_detector 100) 0))) = 0"
proof -
  let ?d = "worker_step raising_modules (capture_frame (init_detector 100) 0)"
  have d: "?d = (init_detector 100)\<lparr>unfinished_tasks := 1, frames_captured := 1,
      worker_frame := Some (0, 1)\<rparr>"
    by (simp add: capture_frame_def put_nowait_def init_detector_def worker_step_def
        get_timeout_def Let_def)
  have h1: "worker_frame ?d = Some (0, 1)" by (simp add: d)
  have body: "process_frame_body raising_modules 0 n = Inl ''boom''" for n
    by (simp add: process_frame_body_def raising_modules_def working_modules_def)
  have h2: "fst (process_frame raising_modules 0 1) = None"
    by (simp add: process_frame_def body)
  have w: "worker_step raising_modules ?d =
      (task_done ?d)\<lparr>worker_frame := None,
         logged := logged ?d @ [Error_processing_frame 1 ''boom'']\<rparr>"
    using failed_frame_isolated [OF h1 h2] by (simp add: body)
  have a: "logged (worker_step raising_modules ?d) = [Error_processing_frame 1 ''boom'']"
    by (subst w, simp only: d) (simp add: task_done_def init_detector_def)
  have b: "frames_processed (worker_step raising_modules ?d) = 0"
    by (subst w, simp only: d) (simp add: task_done_def init_detector_def)
  show ?thesis using h1 h2 a b by (intro conjI)
qed

text \<open>
  Claim C9 as stated fails: the preprocessing of the frame returns the status \<open>error\<close>,
  the pass returns nothing, and after the worker has handled the frame the log is empty.
\<close>

theorem failed_frame_isolated_counterexample:
  "fst (process_frame failing_modules 0 1) = None \<and>
   logged (worker_step failing_modules
          (worker_step failing_modules (capture_frame (init_detector 100) 0))) = []"
  by (simp add: capture_frame_def put_nowait_def init_detector_def worker_step_def
      get_timeout_def task_done_def process_frame_def process_frame_body_def
      failing_modules_def working_modules_def Let_def)

text \<open>
  Claim C10. When colour conversion and preprocessing succeed and segmentation succeeds
  with an empty organism list, the pass returns nothing and logs nothing, exactly as it
  does when segmentation returns an error status; the worker's action on that frame only
  marks the task done and releases the frame, so \<open>frames_processed\<close>, \<open>total_organisms\<close>,
  the species counts and the results queue stay as they were.
\<close>

theorem empty_frame_not_processed:
  assumes "cvtColor m fr = Returns rgb"
    and "preprocessor m rgb = Returns (''success'', p)"
    and "segmenter m p rgb = Returns (''success'', [])"
    and "worker_frame d = Some (fr, n)"
  shows "process_frame m fr n = (None, []) \<and>
         process_frame m fr n
           = process_frame (m\<lparr>segmenter := (\<lambda>_ _. Returns (''error'', []))\<rparr>) fr n \<and>
         worker_step m d = (task_done d)\<lparr>worker_frame := None\<rparr> \<and>
         frames_processed (worker_step m d) = frames_processed d \<and>
         total_organisms (worker_step m d) = total_organisms d \<and>
         species_counts (worker_step m d) = species_counts d \<and>
         results_queue (worker_step m d) = results_queue d"
  using assms
  by (simp add: worker_step_def task_done_def Let_def process_frame_def process_frame_body_def)

theorem empty_frame_not_processed_witness:
  "cvtColor empty_modules 0 = Returns 0 \<and>
   preprocessor empty_modules 0 = Returns (''success'', 0) \<and>
   segmenter empty_modules 0 0 = Returns (''success'', []) \<and>
   worker_frame (worker_step empty_modules (capture_frame (init_detector 100) 0))
     = Some (0, 1) \<and>
   process_frame empty_modules 0 1 = (None, []) \<and>
   frames_processed (worker_step empty_modules
       (worker_step empty_modules (capture_frame (init_detector 100) 0))) = 0 \<and>
   frames_captured (worker_step empty_modules
       (worker_step empty_modules (capture_frame (init_detector 100) 0))) = 1"
proof -
  let ?d = "worker_step empty_modules (capture_frame (init_detector 100) 0)"
  have d: "?d = (init_detector 100)\<lparr>unfinished_tasks := 1, frames_captured := 1,
      worker_frame := Some (0, 1)\<rparr>"
    by (simp add: capture_frame_def put_nowait_def init_detector_def worker_step_def
        get_timeout_def Let_def)
  have h1: "cvtColor empty_modules 0 = Returns 0"
    and h2: "preprocessor empty_modules 0 = Returns (''success'', 0)"
    and h3: "segmenter empty_modules 0 0 = Returns (''success'', [])"
    by (simp_all add: empty_modules_def working_modules_def)
  have h4: "worker_frame ?d = Some (0, 1)" by (simp add: d)
  note t = empty_frame_not_processed [OF h1 h2 h3 h4]
  have pf: "process_frame empty_modules 0 1 = (None, [])"
    using t by (rule conjunct1)
  have w: "worker_step empty_modules ?d = (task_done ?d)\<lparr>worker_frame := None\<rparr>"
    using t by blast
  have a: "frames_processed (worker_step empty_modules ?d) = 0"
    by (subst w, simp only: d) (simp add: task_done_def init_detector_def)
  have b: "frames_captured (worker_step empty_modules ?d) = 1"
    by (subst w, simp only: d) (simp add: task_done_def init_detector_def)
  show ?thesis using h1 h2 h3 h4 pf a b by (intro conjI)
qed

section \<open>Pipeline simulation: fail-fast\<close>

lemma run_steps_later_not_invoked:
  assumes "sc s = Stage_returns st" and "st \<noteq> ''success''"
    and "s \<in> fst ` set steps"
    and "sorted_wrt (\<lambda>a b. stage_index (fst a) < stage_index (fst b)) steps"
    and "Invoked s' \<in> set (fst (run_steps sc steps tr))"
    and "Invoked s' \<notin> set tr"
  shows "stage_index s' \<le> stage_index s"
  using assms(3-)
proof (induction steps arbitrary: tr)
  case Nil
  then show ?case by simp
next
  case (Cons a rest)
  obtain x saves where a: "a = (x, saves)" by (cases a)
  have le: "stage_index x \<le> stage_index s"
    using Cons.prems(1,2) a by auto
  show ?case
  proof (cases "sc x")
    case (Stage_raises e)
    with Cons.prems(3,4) a have "s' = x" by auto
    with le show ?thesis by simp
  next
    case (Stage_returns stx)
    show ?thesis
    proof (cases "stx = ''success''")
      case False
      with Stage_returns Cons.prems(3,4) a have "s' = x" by auto
      with le show ?thesis by simp
    next
      case True
      with Stage_returns assms(1,2) have "x \<noteq> s" by auto
      with Cons.prems(1) a have in_rest: "s \<in> fst ` set rest" by auto
      have sorted: "sorted_wrt (\<lambda>a b. stage_index (fst a) < stage_index (fst b)) rest"
        using Cons.prems(2) by simp
      let ?tr = "tr @ Invoked x # map Saved saves"
      have run: "Invoked s' \<in> set (fst (run_steps sc rest ?tr))"
        using Cons.prems(3) a Stage_returns True by simp
      show ?thesis
      proof (cases "s' = x")
        case True
        with le show ?thesis by simp
      next
        case False
        with Cons.prems(4) have "Invoked s' \<notin> set ?tr" by auto
        with Cons.IH [OF in_rest sorted run] show ?thesis by simp
      qed
    qed
  qed
qed

lemma run_steps_stops_at_failure:
  assumes "sc s = Stage_returns st" and "st \<noteq> ''success''"
    and "Invoked s \<in> set (fst (run_steps sc steps tr))"
    and "Invoked s \<notin> set tr"
  shows "\<exists>pre. run_steps sc steps tr = (pre @ [Invoked s, Logged_failure s], Inr False)"
  using assms(3-)
proof (induction steps arbitrary: tr)
  case Nil
  then show ?case by simp
next
  case (Cons a rest)
  obtain x saves where a: "a = (x, saves)" by (cases a)
  show ?case
  proof (cases "sc x")
    case (Stage_raises e)
    with Cons.prems a have "s = x" by auto
    with Stage_raises assms(1) show ?thesis by simp
  next
    case (Stage_returns stx)
    show ?thesis
    proof (cases "stx = ''success''")
      case False
      with Stage_returns Cons.prems a have "s = x" by auto
      with Stage_returns False a show ?thesis by simp
    next
      case True
      with Stage_returns assms(1,2) have "x \<noteq> s" by auto
      let ?tr = "tr @ Invoked x # map Saved saves"
      have "Invoked s \<in> set (fst (run_steps sc rest ?tr))"
        using Cons.prems(1) a Stage_returns True by simp
      moreover have "Invoked s \<notin> set ?tr"
        using Cons.prems(2) \<open>x \<noteq> s\<close> by auto
      ultimately obtain pre where
        "run_steps sc rest ?tr = (pre @ [Invoked s, Logged_failure s], Inr False)"
        using Cons.IH by blast
      then show ?thesis using a Stage_returns True by simp
    qed
  qed
qed

lemma pipeline_steps_sorted:
  "sorted_wrt (\<lambda>a b. stage_index (fst a) < stage_index (fst b)) pipeline_steps"
  by (simp add: pipeline_steps_def)

lemma pipeline_steps_all: "s \<in> fst ` set pipeline_steps"
  by (cases s) (simp_all add: pipeline_steps_def)

lemma simulate_trace_invoked:
  "Invoked s \<in> set (fst (simulate_single_sample sc)) \<longleftrightarrow>
   Invoked s \<in> set (fst (run_steps sc pipeline_steps []))"
  by (auto simp: simulate_single_sample_def split: prod.splits sum.splits bool.splits)

text \<open>The trace of a sample on which every stage succeeds, and of one whose segmentation fails.\<close>

lemma simulate_all_success:
  "simulate_single_sample (\<lambda>s. Stage_returns ''success'') =
     ([Invoked Acquisition, Saved ''original'', Invoked Preprocessing, Saved ''preprocessed'',
       Invoked Segmentation, Saved ''segmentation'', Invoked Classification,
       Saved ''classification'', Invoked Counting, Invoked Analytics, Saved ''final'',
       Invoked Export, Saved ''grid'', Saved ''metadata''],
      Inr (Some [''original'', ''preprocessed'', ''segmentation'', ''classification'',
                 ''final'', ''grid'']))"
  by (simp add: simulate_single_sample_def pipeline_steps_def)

lemma simulate_segmentation_fails:
  "simulate_single_sample segmentation_fails =
     ([Invoked Acquisition, Saved ''original'', Invoked Preprocessing, Saved ''preprocessed'',
       Invoked Segmentation, Logged_failure Segmentation],
      Inr None)"
  by (simp add: simulate_single_sample_def pipeline_steps_def segmentation_fails_def)

text \<open>
  Claim C2. If a stage returns the status \<open>error\<close>, no stage after it in the fixed order
  is ever called, so in particular Export is not called (and writes nothing) for a sample
  whose Segmentation failed; and when the failing stage was reached, the run ends right
  there: its call and the report of its failure are the last two events and the function
  returns \<open>None\<close>.
\<close>

theorem fail_fast_after_stage_error:
  assumes "sc s = Stage_returns ''error''"
  shows "(\<forall>s'. stage_index s < stage_index s' \<longrightarrow>
            Invoked s' \<notin> set (fst (simulate_single_sample sc))) \<and>
         (s = Segmentation \<longrightarrow> Invoked Export \<notin> set (fst (simulate_single_sample sc))) \<and>
         (Invoked s \<in> set (fst (simulate_single_sample sc)) \<longrightarrow>
            (\<exists>pre. simulate_single_sample sc
                      = (pre @ [Invoked s, Logged_failure s], Inr None)))"
proof -
  have ne: "''error'' \<noteq> ''success''" by simp
  have later: "Invoked s' \<notin> set (fst (simulate_single_sample sc))"
    if "stage_index s < stage_index s'" for s'
  proof
    assume "Invoked s' \<in> set (fst (simulate_single_sample sc))"
    then have "Invoked s' \<in> set (fst (run_steps sc pipeline_steps []))"
      by (simp add: simulate_trace_invoked)
    then have "stage_index s' \<le> stage_index s"
      using run_steps_later_not_invoked [of sc s "''error''" pipeline_steps s' "[]"]
        assms ne pipeline_steps_all [of s] pipeline_steps_sorted
      by simp
    with that show False by simp
  qed
  have stop: "\<exists>pre. simulate_single_sample sc = (pre @ [Invoked s, Logged_failure s], Inr None)"
    if "Invoked s \<in> set (fst (simulate_single_sample sc))"
  proof -
    from that have "Invoked s \<in> set (fst (run_steps sc pipeline_steps []))"
      by (simp add: simulate_trace_invoked)
    then obtain pre where
      "run_steps sc pipeline_steps [] = (pre @ [Invoked s, Logged_failure s], Inr False)"
      using run_steps_stops_at_failure [of sc s "''error''" pipeline_steps "[]"] assms ne
      by auto
    then show ?thesis by (simp add: simulate_single_sample_def)
  qed
  from later stop show ?thesis by auto
qed

theorem fail_fast_after_stage_error_witness:
  "segmentation_fails Segmentation = Stage_returns ''error'' \<and>
   Invoked Segmentation \<in> set (fst (simulate_single_sample segmentation_fails)) \<and>
   Invoked Export \<notin> set (fst (simulate_single_sample segmentation_fails)) \<and>
   snd (simulate_single_sample segmentation_fails) = Inr None"
proof -
  have h: "segmentation_fails Segmentation = Stage_returns ''error''"
    by (simp add: segmentation_fails_def)
  have inv: "Invoked Segmentation \<in> set (fst (simulate_single_sample segmentation_fails))"
    by (simp add: simulate_single_sample_def pipeline_steps_def segmentation_fails_def)
  note t = fail_fast_after_stage_error [of segmentation_fails Segmentation, OF h]
  from t have "Invoked Export \<notin> set (fst (simulate_single_sample segmentation_fails))"
    by blast
  moreover from t inv obtain pre where
    "simulate_single_sample segmentation_fails
       = (pre @ [Invoked Segmentation, Logged_failure Segmentation], Inr None)"
    by blast
  then have "snd (simulate_single_sample segmentation_fails) = Inr None" by simp
  ultimately show ?thesis using h inv by (intro conjI)
qed

section \<open>Batch processing: exit code and summary\<close>

lemma process_images_continue:
  "process_images ep True imgs all_results failed =
     Inr (all_results @ successful_results ep imgs, failed @ failures ep imgs)"
  by (induction imgs arbitrary: all_results failed) (auto simp: sample_succeeds_def split: sum.splits)

lemma process_images_stop:
  "process_images ep False imgs all_results failed =
     (if \<forall>img\<in>set imgs. sample_succeeds ep img
      then Inr (all_results @ successful_results ep imgs, failed)
      else Inl 1)"
  by (induction imgs arbitrary: all_results failed) (auto simp: sample_succeeds_def split: sum.splits)

lemma process_single_image_success:
  "process_single_image ep img = Inr r \<Longrightarrow> status r = Some ''success''"
  by (auto simp: process_single_image_def split: call.splits if_splits)

lemma successful_results_status:
  "r \<in> set (successful_results ep imgs) \<Longrightarrow> status r = Some ''success''"
  by (induction imgs) (auto split: sum.splits dest: process_single_image_success)

lemma summarize_loop_success:
  "\<forall>r\<in>set rs. status r = Some ''success'' \<Longrightarrow>
     summarize_loop rs acc = Inr (foldl accumulate acc rs)"
  by (induction rs arbitrary: acc) auto

lemma summarize_results_returns:
  "\<forall>r\<in>set rs. status r = Some ''success'' \<Longrightarrow> \<exists>s. summarize_results rs = Inr s"
  by (auto simp: summarize_results_def summarize_loop_success split: prod.splits)

text \<open>
  Claim C6, as the code has it. The exit code is 0 exactly when the input directory
  exists, at least one image is found, and either \<open>--continue-on-error\<close> is set or no
  sample fails; otherwise it is 1. With \<open>--continue-on-error\<close> a batch in which every
  sample fails still exits with 0.
\<close>

theorem batch_exit_code:
  "fst (batch_main dir_exists image_files continue_on_error ep) =
     (if dir_exists \<and> image_files \<noteq> [] \<and>
         (continue_on_error \<or> (\<forall>img\<in>set image_files. sample_succeeds ep img))
      then 0 else 1)"
proof -
  have "\<exists>s. summarize_results (successful_results ep image_files) = Inr s"
    by (rule summarize_results_returns) (simp add: successful_results_status)
  then obtain s where s: "summarize_results (successful_results ep image_files) = Inr s"
    by blast
  show ?thesis
  proof (cases continue_on_error)
    case True
    then show ?thesis
      using s by (simp add: batch_main_def process_images_continue)
  next
    case False
    then show ?thesis
      using s by (simp add: batch_main_def process_images_stop)
  qed
qed

theorem batch_exit_code_witness:
  "sample_succeeds mixed_pipeline ''a.jpg'' \<and> sample_succeeds mixed_pipeline ''b.jpg'' \<and>
   \<not> sample_succeeds mixed_pipeline ''c.jpg'' \<and>
   fst (batch_main True [''a.jpg'', ''b.jpg''] False mixed_pipeline) = 0 \<and>
   fst (batch_main True [''a.jpg'', ''c.jpg''] False mixed_pipeline) = 1"
proof -
  have a: "sample_succeeds mixed_pipeline ''a.jpg''"
    and b: "sample_succeeds mixed_pipeline ''b.jpg''"
    and c: "\<not> sample_succeeds mixed_pipeline ''c.jpg''"
    by (simp_all add: sample_succeeds_def process_single_image_def mixed_pipeline_def
        sample_result_def)
  have "fst (batch_main True [''a.jpg'', ''b.jpg''] False mixed_pipeline) = 0"
    using batch_exit_code [of True "[''a.jpg'', ''b.jpg'']" False mixed_pipeline] a b
    by simp
  moreover have "fst (batch_main True [''a.jpg'', ''c.jpg''] False mixed_pipeline) = 1"
    using batch_exit_code [of True "[''a.jpg'', ''c.jpg'']" False mixed_pipeline] c
    by simp
  ultimately show ?thesis using a b c by (intro conjI)
qed

text \<open>
  Claim C6 as stated fails: with \<open>--continue-on-error\<close> and a single image whose pipeline
  run fails, no sample succeeds and the exit code is 0.
\<close>

theorem batch_exit_code_counterexample:
  "successful_results failing_pipeline [''a.jpg''] = [] \<and>
   fst (batch_main True [''a.jpg''] True failing_pipeline) = 0"
  by (simp add: batch_main_def process_single_image_def failing_pipeline_def
      summarize_results_def get_or_def)

text \<open>The failure list names a failed image by its file name and carries the message.\<close>

lemma failures_example:
  "map_option snd (snd (batch_main True [''images/a.jpg'', ''images/x.png''] True mixed_pipeline))
     = Some [(''a.jpg'', ''Error processing a.jpg: unreadable''),
             (''x.png'', ''Error processing x.png: unreadable'')]"
  by (simp add: batch_main_def process_single_image_def mixed_pipeline_def path_name_def
      summarize_results_def)

lemma count_for_add_count:
  "count_for sp (add_count k v items) = count_for sp items + (if k = sp then v else 0)"
  by (induction k v items rule: add_count.induct) (auto simp: count_for_def)

lemma count_for_Cons:
  "count_for sp ((k, c) # items) = (if k = sp then c else 0) + count_for sp items"
  by (simp add: count_for_def)

lemma merge_class_counts_fields:
  "total_images (merge_class_counts s items) = total_images s \<and>
   average_diversity (merge_class_counts s items) = average_diversity s \<and>
   count_for sp (summary_species_counts (merge_class_counts s items))
     = count_for sp (summary_species_counts s) + count_for sp items"
proof (induction s items rule: merge_class_counts.induct)
  case (1 s)
  then show ?case by (simp add: count_for_def)
next
  case (2 s species c items)
  then show ?case by (simp add: count_for_add_count count_for_Cons)
qed

lemma append_blooms_fields:
  "total_images (append_blooms capture s blooms) = total_images s \<and>
   average_diversity (append_blooms capture s blooms) = average_diversity s \<and>
   summary_species_counts (append_blooms capture s blooms) = summary_species_counts s"
  by (induction capture s blooms rule: append_blooms.induct) simp_all

lemma accumulate_fields:
  assumes "accumulate (s, sh, si) r = (s', sh', si')"
  shows "total_images s' = total_images s"
    and "average_diversity s' = average_diversity s"
    and "sh' = sh + summary_get r rs_shannon_diversity 0"
    and "si' = si + detailed_get r dr_diversity_simpson 0"
    and "count_for sp (summary_species_counts s') =
           count_for sp (summary_species_counts s)
             + count_for sp (summary_get r rs_counts_by_class [])"
  using assms
  by (auto simp: accumulate_def Let_def append_blooms_fields merge_class_counts_fields)

lemma accumulate_fold:
  assumes "foldl accumulate (s, sh, si) rs = (s', sh', si')"
  shows "total_images s' = total_images s \<and>
         average_diversity s' = average_diversity s \<and>
         sh' = sh + sum_list (map (\<lambda>r. summary_get r rs_shannon_diversity 0) rs) \<and>
         si' = si + sum_list (map (\<lambda>r. detailed_get r dr_diversity_simpson 0) rs) \<and>
         count_for sp (summary_species_counts s') =
           count_for sp (summary_species_counts s)
             + sum_list (map (\<lambda>r. count_for sp (summary_get r rs_counts_by_class [])) rs)"
  using assms
proof (induction rs arbitrary: s sh si)
  case Nil
  then show ?case by simp
next
  case (Cons r rs)
  obtain s1 sh1 si1 where a: "accumulate (s, sh, si) r = (s1, sh1, si1)"
    by (cases "accumulate (s, sh, si) r")
  with Cons.prems have "foldl accumulate (s1, sh1, si1) rs = (s', sh', si')" by simp
  from Cons.IH [OF this] accumulate_fields [OF a]
  show ?case by simp
qed

text \<open>
  Claim C7, as the code has it. In a batch run with \<open>--continue-on-error\<close> over at least
  one image, the summary is built from the successful samples only: \<open>total_images\<close> is their
  number, the average diversity holds exactly the two entries \<open>shannon\<close> and \<open>simpson\<close>,
  each the arithmetic mean of the successful samples' values (0 when no sample succeeded),
  and the merged count of every species is the sum of its counts over the successful
  samples. The list of failures holds every failed sample. No mean of the species
  richness is computed.
\<close>

theorem batch_summary_means:
  assumes "image_files \<noteq> []"
  shows "\<exists>s. batch_main True image_files True ep = (0, Some (s, failures ep image_files)) \<and>
           total_images s = length (successful_results ep image_files) \<and>
           average_diversity s =
             [(''shannon'', mean (map (\<lambda>r. summary_get r rs_shannon_diversity 0)
                                      (successful_results ep image_files))),
              (''simpson'', mean (map (\<lambda>r. detailed_get r dr_diversity_simpson 0)
                                      (successful_results ep image_files)))] \<and>
           (\<forall>sp. count_for sp (summary_species_counts s) =
                  sum_list (map (\<lambda>r. count_for sp (summary_get r rs_counts_by_class []))
                                (successful_results ep image_files)))"
proof -
  let ?rs = "successful_results ep image_files"
  let ?init = "\<lparr>total_images = length ?rs, summary_total_organisms = 0,
               species_detected = {}, summary_species_counts = [],
               average_diversity = [(''shannon'', 0), (''simpson'', 0)],
               blooms_detected = []\<rparr>"
  obtain s1 sh si where f: "foldl accumulate (?init, 0, 0) ?rs = (s1, sh, si)"
    by (cases "foldl accumulate (?init, 0, 0) ?rs")
  have loop: "summarize_loop ?rs (?init, 0, 0) = Inr (s1, sh, si)"
    using summarize_loop_success [of ?rs "(?init, 0, 0)"] f
    by (simp add: successful_results_status)
  note fields = accumulate_fold [OF f]
  have ti: "total_images s1 = length ?rs"
    and avg0: "average_diversity s1 = [(''shannon'', 0), (''simpson'', 0)]"
    and sh: "sh = sum_list (map (\<lambda>r. summary_get r rs_shannon_diversity 0) ?rs)"
    and si: "si = sum_list (map (\<lambda>r. detailed_get r dr_diversity_simpson 0) ?rs)"
    using fields [of "[]"] by simp_all
  have counts: "count_for sp (summary_species_counts s1) =
      sum_list (map (\<lambda>r. count_for sp (summary_get r rs_counts_by_class [])) ?rs)" for sp
    using fields [of sp] by (simp add: count_for_def)
  let ?s = "if 0 < total_images s1
            then s1\<lparr>average_diversity :=
                     [(''shannon'', sh / real (total_images s1)),
                      (''simpson'', si / real (total_images s1))]\<rparr>
            else s1"
  have sr: "summarize_results ?rs = Inr ?s"
    using loop by (simp add: summarize_results_def)
  have main: "batch_main True image_files True ep = (0, Some (?s, failures ep image_files))"
    using assms sr by (simp add: batch_main_def process_images_continue)
  have "total_images ?s = length ?rs" using ti by simp
  moreover have "average_diversity ?s =
      [(''shannon'', mean (map (\<lambda>r. summary_get r rs_shannon_diversity 0) ?rs)),
       (''simpson'', mean (map (\<lambda>r. detailed_get r dr_diversity_simpson 0) ?rs))]"
    using ti avg0 sh si by (simp add: mean_def)
  moreover have "\<forall>sp. count_for sp (summary_species_counts ?s) =
      sum_list (map (\<lambda>r. count_for sp (summary_get r rs_counts_by_class [])) ?rs)"
    using counts by simp
  ultimately show ?thesis using main by blast
qed

theorem batch_summary_means_witness:
  "[''a.jpg'', ''c.jpg'', ''b.jpg''] \<noteq> [] \<and>
   length (successful_results mixed_pipeline [''a.jpg'', ''c.jpg'', ''b.jpg'']) = 2 \<and>
   map_option (average_diversity \<circ> fst)
     (snd (batch_main True [''a.jpg'', ''c.jpg'', ''b.jpg''] True mixed_pipeline))
     = Some [(''shannon'', 1 / 2), (''simpson'', 3 / 4)]"
proof -
  have h: "[''a.jpg'', ''c.jpg'', ''b.jpg''] \<noteq> []" by simp
  have succ: "successful_results mixed_pipeline [''a.jpg'', ''c.jpg'', ''b.jpg'']
      = [sample_result 1 (1 / 2) [(''copepod'', 2), (''diatom'', 2)],
         sample_result 0 1 [(''copepod'', 3)]]"
    by (simp add: process_single_image_def mixed_pipeline_def sample_result_def)
  from batch_summary_means [OF h, of mixed_pipeline] obtain s where
    s: "batch_main True [''a.jpg'', ''c.jpg'', ''b.jpg''] True mixed_pipeline
          = (0, Some (s, failures mixed_pipeline [''a.jpg'', ''c.jpg'', ''b.jpg'']))"
      "average_diversity s =
         [(''shannon'', mean (map (\<lambda>r. summary_get r rs_shannon_diversity 0)
            (successful_results mixed_pipeline [''a.jpg'', ''c.jpg'', ''b.jpg'']))),
          (''simpson'', mean (map (\<lambda>r. detailed_get r dr_diversity_simpson 0)
            (successful_results mixed_pipeline [''a.jpg'', ''c.jpg'', ''b.jpg''])))]"
    by blast
  have "average_diversity s = [(''shannon'', 1 / 2), (''simpson'', 3 / 4)]"
    unfolding s(2) succ
    by (simp add: mean_def summary_get_def detailed_get_def get_or_def sample_result_def)
  then show ?thesis using h s(1) succ by simp
qed

text \<open>
  Claim C7 as stated fails: the two successful samples of this batch have species
  richness 2 and 1, and the average diversity of the summary consists of the entries
  \<open>shannon\<close> and \<open>simpson\<close> alone.
\<close>

theorem batch_summary_means_counterexample:
  "map sample_richness (successful_results mixed_pipeline [''a.jpg'', ''b.jpg'']) = [2, 1] \<and>
   map_option (average_diversity \<circ> fst)
     (snd (batch_main True [''a.jpg'', ''b.jpg''] True mixed_pipeline))
     = Some [(''shannon'', 1 / 2), (''simpson'', 3 / 4)]"
  by (simp add: batch_main_def process_single_image_def mixed_pipeline_def sample_result_def
      summarize_results_def accumulate_def summary_get_def detailed_get_def get_or_def Let_def
      sample_richness_def)

section \<open>Diversity analytics: edge cases\<close>

lemma total_count_present: "total_count (present_classes cc) = total_count cc"
  by (induction cc) (auto simp: total_count_def present_classes_def)

lemma shannon_single_present:
  assumes "species_richness cc = 1"
  shows "shannon cc = 0"
proof -
  from assms obtain item where item: "present_classes cc = [item]"
    by (cases "present_classes cc") (auto simp: species_richness_def)
  have "total_count cc = snd item"
    using total_count_present [of cc] by (simp add: item total_count_def)
  moreover have "item \<in> set (present_classes cc)" by (simp add: item)
  then have "0 < snd item" by (simp add: present_classes_def)
  ultimately have "proportion cc (snd item) = 1"
    by (simp add: proportion_def)
  then show ?thesis by (simp add: shannon_def item)
qed

lemma species_richness_card:
  assumes "distinct (map fst cc)"
  shows "species_richness cc = card {k. \<exists>c. (k, c) \<in> set cc \<and> c \<noteq> 0}"
proof -
  have "distinct (map fst (present_classes cc))"
    using assms by (simp add: present_classes_def distinct_map_filter)
  then have "card (set (map fst (present_classes cc))) = length (present_classes cc)"
    using distinct_card [of "map fst (present_classes cc)"] by simp
  moreover have "set (map fst (present_classes cc)) = {k. \<exists>c. (k, c) \<in> set cc \<and> c \<noteq> 0}"
    by (force simp: present_classes_def)
  ultimately show ?thesis by (simp add: species_richness_def)
qed

text \<open>
  Claim C3, for the analytics functions as the specification defines them. The Shannon
  index is 0 when the total count is 0 and otherwise minus the sum of \<open>p * ln p\<close> over the
  classes with a positive count; it is 0 for the empty mapping, for a mapping with a
  single class, and whenever exactly one class has a positive count. The Simpson index of
  two classes with one organism each is exactly one half. The species richness is the
  number of items with a non-zero count, which for a mapping (each label once) is the
  number of classes with a non-zero count.
\<close>

theorem diversity_edge_cases:
  "(total_count cc = 0 \<longrightarrow> shannon cc = 0) \<and>
   (0 < total_count cc \<longrightarrow>
      shannon cc = - (\<Sum>item \<leftarrow> filter (\<lambda>item. 0 < snd item) cc.
                        (real (snd item) / real (total_count cc))
                          * ln (real (snd item) / real (total_count cc)))) \<and>
   shannon [] = 0 \<and>
   shannon [(a, n)] = 0 \<and>
   (species_richness cc = 1 \<longrightarrow> shannon cc = 0) \<and>
   simpson [(a, 1), (b, 1)] = 1 / 2 \<and>
   species_richness cc = length (filter (\<lambda>item. snd item \<noteq> 0) cc) \<and>
   (distinct (map fst cc) \<longrightarrow>
      species_richness cc = card {k. \<exists>c. (k, c) \<in> set cc \<and> c \<noteq> 0})"
proof -
  have "shannon [(a, n)] = 0"
    by (cases "n = 0") (simp_all add: shannon_def total_count_def present_classes_def
        proportion_def)
  moreover have "simpson [(a, 1), (b, 1)] = 1 / 2"
    by (simp add: simpson_def total_count_def proportion_def power2_eq_square)
  moreover have "shannon [] = 0"
    by (simp add: shannon_def total_count_def)
  moreover have "species_richness cc = length (filter (\<lambda>item. snd item \<noteq> 0) cc)"
    by (simp add: species_richness_def present_classes_def)
  ultimately show ?thesis
    using shannon_single_present [of cc] species_richness_card [of cc]
    by (simp add: shannon_def present_classes_def proportion_def)
qed

theorem diversity_edge_cases_witness:
  "total_count [(''A'', 0), (''B'', 0)] = 0 \<and> shannon [(''A'', 0), (''B'', 0)] = 0 \<and>
   0 < total_count [(''A'', 5), (''B'', 0)] \<and>
   species_richness [(''A'', 5), (''B'', 0)] = 1 \<and> shannon [(''A'', 5), (''B'', 0)] = 0 \<and>
   distinct (map fst [(''A'', 5 :: nat), (''B'', 0)]) \<and>
   card {k. \<exists>c. (k, c) \<in> set [(''A'', 5 :: nat), (''B'', 0)] \<and> c \<noteq> 0} = 1"
proof -
  have z: "total_count [(''A'', 0), (''B'', 0)] = 0" by (simp add: total_count_def)
  have p: "0 < total_count [(''A'', 5), (''B'', 0)]" by (simp add: total_count_def)
  have r: "species_richness [(''A'', 5), (''B'', 0)] = 1"
    by (simp add: species_richness_def present_classes_def)
  have d: "distinct (map fst [(''A'', 5 :: nat), (''B'', 0)])" by simp
  note t0 = diversity_edge_cases [of "[(''A'', 0), (''B'', 0)]"]
  note t1 = diversity_edge_cases [of "[(''A'', 5), (''B'', 0)]"]
  have "shannon [(''A'', 0), (''B'', 0)] = 0" using t0 z by blast
  moreover have "shannon [(''A'', 5), (''B'', 0)] = 0" using t1 r by blast
  moreover have "card {k. \<exists>c. (k, c) \<in> set [(''A'', 5 :: nat), (''B'', 0)] \<and> c \<noteq> 0} = 1"
    using t1 d r by metis
  ultimately show ?thesis using z p r d by (intro conjI)
qed

section \<open>Configuration validation: completeness\<close>

lemma check_key_section: "v \<in> set (check_key sec sc req) \<Longrightarrow> violation_section v = sec"
  by (auto simp: check_key_def split: option.splits if_splits)

lemma check_section_section:
  "v \<in> set (check_section cfg sec_req) \<Longrightarrow> violation_section v = fst sec_req"
  by (auto simp: check_section_def split: option.splits dest: check_key_section)

lemma check_key_names_key:
  "v \<in> set (check_key sec sc req) \<Longrightarrow> v = Missing_key sec (fst req) \<or> v = Out_of_range sec (fst req)"
  by (auto simp: check_key_def split: option.splits if_splits)

lemma check_key_distinct: "distinct (check_key sec sc req)"
  by (simp add: check_key_def split: option.splits)

lemma check_keys_distinct:
  "distinct (map fst reqs) \<Longrightarrow> distinct (concat (map (check_key sec sc) reqs))"
proof (induction reqs)
  case Nil
  then show ?case by simp
next
  case (Cons req reqs)
  have "set (check_key sec sc req) \<inter> set (concat (map (check_key sec sc) reqs)) = {}"
  proof (rule ccontr)
    assume "\<not> ?thesis"
    then obtain v req' where v: "v \<in> set (check_key sec sc req)"
      and req': "req' \<in> set reqs" "v \<in> set (check_key sec sc req')"
      by auto
    from check_key_names_key [OF v] check_key_names_key [OF req'(2)]
    have "fst req = fst req'" by auto
    with req'(1) Cons.prems show False by force
  qed
  with Cons show ?case by (simp add: check_key_distinct)
qed

lemma check_section_distinct:
  assumes "distinct (map fst (snd sec_req))"
  shows "distinct (check_section cfg sec_req)"
proof (cases "map_of cfg (fst sec_req)")
  case None
  have "inj_on (\<lambda>req. Missing_key (fst sec_req) (fst req)) (set (snd sec_req))"
    using assms by (auto simp: inj_on_def dest: eq_key_imp_eq_value [rotated 2]
        intro: prod_eqI distinct_map [THEN iffD1, THEN conjunct2, THEN inj_onD])
  then show ?thesis
    using None assms by (auto simp: check_section_def distinct_map)
next
  case (Some sc)
  then show ?thesis
    using assms by (simp add: check_section_def check_keys_distinct)
qed

lemma validate_distinct:
  "well_formed_schema sch \<Longrightarrow> distinct (snd (validate sch cfg))"
proof (induction sch)
  case Nil
  then show ?case by (simp add: validate_def)
next
  case (Cons sec_req sch)
  have wf: "well_formed_schema sch" and d: "distinct (map fst (snd sec_req))"
    and fresh: "fst sec_req \<notin> fst ` set sch"
    using Cons.prems by (auto simp: well_formed_schema_def)
  have "set (check_section cfg sec_req) \<inter> set (concat (map (check_section cfg) sch)) = {}"
  proof (rule ccontr)
    assume "\<not> ?thesis"
    then obtain v other where "v \<in> set (check_section cfg sec_req)"
      and "other \<in> set sch" and "v \<in> set (check_section cfg other)"
      by auto
    then have "fst sec_req = fst other"
      using check_section_section by metis
    with \<open>other \<in> set sch\<close> fresh show False by auto
  qed
  with Cons.IH [OF wf] check_section_distinct [OF d, of cfg] show ?case
    by (simp add: validate_def Let_def)
qed

lemma missing_key_reported:
  assumes "(sec, key) \<in> set (missing_keys sch cfg)"
  shows "Missing_key sec key \<in> set (snd (validate sch cfg))"
proof -
  from assms obtain sec_req req where sr: "sec_req \<in> set sch" and r: "req \<in> set (snd sec_req)"
    and eq: "sec = fst sec_req" "key = fst req"
    and miss: "lookup_key cfg (fst sec_req) (fst req) = None"
    by (auto simp: missing_keys_def missing_in_section_def)
  have "Missing_key (fst sec_req) (fst req) \<in> set (check_section cfg sec_req)"
  proof (cases "map_of cfg (fst sec_req)")
    case None
    then show ?thesis using r by (auto simp: check_section_def)
  next
    case (Some sc)
    with miss have "map_of sc (fst req) = None" by (simp add: lookup_key_def)
    then have "Missing_key (fst sec_req) (fst req) \<in> set (check_key (fst sec_req) sc req)"
      by (simp add: check_key_def)
    then show ?thesis using Some r by (auto simp: check_section_def)
  qed
  then show ?thesis using sr eq by (auto simp: validate_def Let_def)
qed

lemma missing_in_section_distinct:
  "distinct (map fst (snd sec_req)) \<Longrightarrow> distinct (missing_in_section cfg sec_req)"
  by (auto simp: missing_in_section_def distinct_map inj_on_def
      dest: eq_key_imp_eq_value intro: prod_eqI distinct_filter)

lemma missing_keys_distinct:
  "well_formed_schema sch \<Longrightarrow> distinct (missing_keys sch cfg)"
proof (induction sch)
  case Nil
  then show ?case by (simp add: missing_keys_def)
next
  case (Cons sec_req sch)
  have wf: "well_formed_schema sch" and d: "distinct (map fst (snd sec_req))"
    and fresh: "fst sec_req \<notin> fst ` set sch"
    using Cons.prems by (auto simp: well_formed_schema_def)
  have "set (missing_in_section cfg sec_req) \<inter> set (concat (map (missing_in_section cfg) sch)) = {}"
    using fresh by (auto simp: missing_in_section_def)
  with Cons.IH [OF wf] missing_in_section_distinct [OF d, of cfg] show ?case
    by (simp add: missing_keys_def)
qed

lemma missing_keys_bound:
  assumes "well_formed_schema sch"
  shows "length (missing_keys sch cfg) \<le> length (snd (validate sch cfg))"
proof -
  let ?f = "\<lambda>p. Missing_key (fst p) (snd p)"
  have inj: "inj_on ?f (set (missing_keys sch cfg))"
    by (auto simp: inj_on_def intro: prod_eqI)
  have sub: "?f ` set (missing_keys sch cfg) \<subseteq> set (snd (validate sch cfg))"
    using missing_key_reported by auto
  have "length (missing_keys sch cfg) = card (set (missing_keys sch cfg))"
    using missing_keys_distinct [OF assms] by (simp add: distinct_card)
  also have "\<dots> = card (?f ` set (missing_keys sch cfg))"
    using inj by (simp add: card_image)
  also have "\<dots> \<le> card (set (snd (validate sch cfg)))"
    using sub by (simp add: card_mono)
  also have "\<dots> \<le> length (snd (validate sch cfg))"
    by (rule card_length)
  finally show ?thesis .
qed

text \<open>
  Claim C5, for the validator as the specification defines it, over a schema in which
  section names and the key names of each section are not repeated. The answer is
  \<open>valid\<close> exactly when the list of violations is empty; the violations are pairwise
  distinct and collected over all sections; every required key the configuration lacks
  has its own violation naming its section and key, so the list has at least as many
  entries as there are missing required keys and is not empty when one is missing. In
  that case \<open>main\<close> logs every violation and returns the exit code 1.
\<close>

theorem validation_reports_every_missing_key:
  assumes "well_formed_schema sch"
  shows "(fst (validate sch cfg) \<longleftrightarrow> snd (validate sch cfg) = []) \<and>
         snd (validate sch cfg) = concat (map (check_section cfg) sch) \<and>
         distinct (snd (validate sch cfg)) \<and>
         (\<forall>sec key. (sec, key) \<in> set (missing_keys sch cfg) \<longrightarrow>
            Missing_key sec key \<in> set (snd (validate sch cfg))) \<and>
         length (missing_keys sch cfg) \<le> length (snd (validate sch cfg)) \<and>
         (missing_keys sch cfg \<noteq> [] \<longrightarrow>
            snd (validate sch cfg) \<noteq> [] \<and> \<not> fst (validate sch cfg) \<and>
            main_validate (validate sch cfg) validate_only
              = (Some 1, snd (validate sch cfg)))"
proof -
  have valid: "fst (validate sch cfg) \<longleftrightarrow> snd (validate sch cfg) = []"
    and all: "snd (validate sch cfg) = concat (map (check_section cfg) sch)"
    by (simp_all add: validate_def Let_def)
  have bound: "length (missing_keys sch cfg) \<le> length (snd (validate sch cfg))"
    using assms by (rule missing_keys_bound)
  have nonempty: "snd (validate sch cfg) \<noteq> []" if "missing_keys sch cfg \<noteq> []"
    using that bound by auto
  have exit1: "main_validate (validate sch cfg) validate_only = (Some 1, snd (validate sch cfg))"
    if "missing_keys sch cfg \<noteq> []"
    using nonempty [OF that] valid
    by (cases "validate sch cfg") (simp add: main_validate_def)
  show ?thesis
    using valid all validate_distinct [OF assms, of cfg] missing_key_reported [of _ _ sch cfg]
      bound nonempty exit1
    by blast
qed

theorem validation_reports_every_missing_key_witness:
  "well_formed_schema spec_schema \<and>
   missing_keys spec_schema incomplete_config
     = [(''segmentation'', ''maxArea''), (''analytics'', ''bloomDominanceThreshold'')] \<and>
   snd (validate spec_schema incomplete_config)
     = [Missing_key ''segmentation'' ''maxArea'',
        Out_of_range ''counting'' ''confidenceThreshold'',
        Missing_section ''analytics'',
        Missing_key ''analytics'' ''bloomDominanceThreshold''] \<and>
   length (missing_keys spec_schema incomplete_config)
     \<le> length (snd (validate spec_schema incomplete_config)) \<and>
   main_validate (validate spec_schema incomplete_config) False
     = (Some 1, snd (validate spec_schema incomplete_config))"
proof -
  have wf: "well_formed_schema spec_schema"
    by (simp add: well_formed_schema_def spec_schema_def)
  have mk: "missing_keys spec_schema incomplete_config
      = [(''segmentation'', ''maxArea''), (''analytics'', ''bloomDominanceThreshold'')]"
    by (simp add: missing_keys_def missing_in_section_def lookup_key_def spec_schema_def
        incomplete_config_def)
  have v: "snd (validate spec_schema incomplete_config)
      = [Missing_key ''segmentation'' ''maxArea'',
         Out_of_range ''counting'' ''confidenceThreshold'',
         Missing_section ''analytics'',
         Missing_key ''analytics'' ''bloomDominanceThreshold'']"
    by (simp add: validate_def check_section_def check_key_def spec_schema_def
        incomplete_config_def)
  have ne: "missing_keys spec_schema incomplete_config \<noteq> []" by (simp add: mk)
  note t = validation_reports_every_missing_key [OF wf, of incomplete_config False]
  have "length (missing_keys spec_schema incomplete_config)
      \<le> length (snd (validate spec_schema incomplete_config))"
    using t by blast
  moreover have "main_validate (validate spec_schema incomplete_config) False
      = (Some 1, snd (validate spec_schema incomplete_config))"
    using t ne by blast
  ultimately show ?thesis using wf mk v by (intro conjI)
qed

end
